theory Spec2Isabelle
  imports Complex_Main "HOL-Library.Word" "HOL-Library.Multiset" "HOL-Library.Sublist"
begin

section \<open>Go values\<close>

text \<open>
  Go's \<^verbatim>\<open>int\<close> is taken at its width on a 64-bit platform: arithmetic wraps around,
  and the comparisons of the program are the signed ones (\<open><s\<close>, \<open>\<le>s\<close>).
  A \<^verbatim>\<open>string\<close> is its sequence of bytes.
\<close>

type_synonym go_int = "64 word"

text \<open>
  Values of Go's \<^verbatim>\<open>error\<close> interface, by where they are made: \<open>EOF\<close> by the
  buffered reader, \<open>NumError\<close> by \<^verbatim>\<open>strconv\<close> (function, input, cause),
  \<open>Errorf\<close> by \<^verbatim>\<open>fmt.Errorf\<close> (with its formatted message), \<open>EmptyInput\<close> by the
  statistics library, and \<open>External\<close> for what the URL parser, the HTTP client or
  the statistics library report otherwise. A nil error is \<open>None\<close>.
\<close>

datatype error =
    EOF
  | ErrSyntax
  | ErrRange
  | NumError string string error
  | Errorf string
  | EmptyInput
  | External string

text \<open>A parsed \<^verbatim>\<open>*url.URL\<close> is used by the program only through its \<^verbatim>\<open>String()\<close> form.\<close>

type_synonym URL = string

subsection \<open>What the program takes from its libraries\<close>

text \<open>
  \<^verbatim>\<open>float64\<close> is left abstract (the type \<open>'f\<close>): the conversion from \<^verbatim>\<open>int\<close>, the
  division, the numeric part of the statistics library (the type \<open>'q\<close> is its
  \<^verbatim>\<open>Quartiles\<close>), the URL parser and the \<^verbatim>\<open>%f\<close> and \<^verbatim>\<open>%v\<close> verbs of \<^verbatim>\<open>fmt\<close> are
  parameters of the model.
\<close>

record ('f, 'q) platform =
  Parse :: "string \<Rightarrow> error + URL"
  float64 :: "go_int \<Rightarrow> 'f"
  fdiv :: "'f \<Rightarrow> 'f \<Rightarrow> 'f"
  quartiles :: "'f list \<Rightarrow> error + 'q"
  percentile :: "'f list \<Rightarrow> nat \<Rightarrow> error + 'f"
  fmt_f :: "'f \<Rightarrow> string"
  fmt_q :: "'q \<Rightarrow> string"
  fmt_e :: "error option \<Rightarrow> string"

subsection \<open>Package strings\<close>

definition newline :: char where
  "newline = CHR 0x0A"

definition asciiSpace :: "char \<Rightarrow> bool" where
  "asciiSpace c = (c \<in> set [CHR 0x09, CHR 0x0A, CHR 0x0B, CHR 0x0C, CHR 0x0D, CHR 0x20])"

text \<open>
  The UTF-8 encodings of the code points beyond ASCII for which \<^verbatim>\<open>unicode.IsSpace\<close>
  holds: U+0085, U+00A0, U+1680, U+2000 to U+200A, U+2028, U+2029, U+202F, U+205F
  and U+3000.
\<close>

definition unicodeSpace :: "string list" where
  "unicodeSpace =
     [[CHR 0xC2, CHR 0x85], [CHR 0xC2, CHR 0xA0], [CHR 0xE1, CHR 0x9A, CHR 0x80]] @
     map (\<lambda>c. [CHR 0xE2, CHR 0x80, c])
       [CHR 0x80, CHR 0x81, CHR 0x82, CHR 0x83, CHR 0x84, CHR 0x85, CHR 0x86, CHR 0x87,
        CHR 0x88, CHR 0x89, CHR 0x8A, CHR 0xA8, CHR 0xA9, CHR 0xAF] @
     [[CHR 0xE2, CHR 0x81, CHR 0x9F], [CHR 0xE3, CHR 0x80, CHR 0x80]]"

text \<open>The width in bytes of a white-space rune at the start (at the end) of a string, 0 when there is none.\<close>

definition spaceAtStart :: "string \<Rightarrow> nat" where
  "spaceAtStart s =
     (case s of [] \<Rightarrow> 0
      | c # cs \<Rightarrow>
          if asciiSpace c then 1
          else (case find (\<lambda>w. prefix w s) unicodeSpace of None \<Rightarrow> 0 | Some w \<Rightarrow> length w))"

definition spaceAtEnd :: "string \<Rightarrow> nat" where
  "spaceAtEnd s =
     (if s = [] then 0
      else if asciiSpace (last s) then 1
      else (case find (\<lambda>w. suffix w s) unicodeSpace of None \<Rightarrow> 0 | Some w \<Rightarrow> length w))"

function trimLeftSpace :: "string \<Rightarrow> string" where
  "trimLeftSpace s = (if spaceAtStart s = 0 then s else trimLeftSpace (drop (spaceAtStart s) s))"
  by pat_completeness auto
termination
  by (relation "measure length") (auto simp: spaceAtStart_def split: list.splits)

declare trimLeftSpace.simps [simp del]

function trimRightSpace :: "string \<Rightarrow> string" where
  "trimRightSpace s =
     (if spaceAtEnd s = 0 then s else trimRightSpace (take (length s - spaceAtEnd s) s))"
  by pat_completeness auto
termination
  by (relation "measure length") (auto simp: spaceAtEnd_def split: if_splits)

declare trimRightSpace.simps [simp del]

definition TrimSpace :: "string \<Rightarrow> string" where
  "TrimSpace s = trimRightSpace (trimLeftSpace s)"

text \<open>\<^verbatim>\<open>strings.Trim\<close> with a cutset of ASCII characters works byte by byte.\<close>

definition Trim :: "string \<Rightarrow> string \<Rightarrow> string" where
  "Trim s cutset =
     rev (dropWhile (\<lambda>c. c \<in> set cutset) (rev (dropWhile (\<lambda>c. c \<in> set cutset) s)))"

definition HasPrefix :: "string \<Rightarrow> string \<Rightarrow> bool" where
  "HasPrefix s p = prefix p s"

definition HasSuffix :: "string \<Rightarrow> string \<Rightarrow> bool" where
  "HasSuffix s p = suffix p s"

fun Join :: "string list \<Rightarrow> string \<Rightarrow> string" where
  "Join [] sep = []"
| "Join [x] sep = x"
| "Join (x # y # ys) sep = x @ sep @ Join (y # ys) sep"

subsection \<open>The buffered reader\<close>

text \<open>
  \<^verbatim>\<open>ReadString(delim)\<close> on the bytes that are left of the source: the bytes up to and
  including the first delimiter and no error, or, when no delimiter is left, all
  the remaining bytes together with the error. The third component is what is
  left of the source afterwards. (A read error other than end of file ends the
  source where it happens, and the program treats it as it treats \<open>EOF\<close>.)
\<close>

definition ReadString :: "string \<Rightarrow> char \<Rightarrow> string \<times> error option \<times> string" where
  "ReadString buffered delim =
     (case dropWhile (\<lambda>c. c \<noteq> delim) buffered of
        [] \<Rightarrow> (buffered, Some EOF, [])
      | d # rest \<Rightarrow> (takeWhile (\<lambda>c. c \<noteq> delim) buffered @ [d], None, rest))"

lemma ReadString_shorter:
  assumes "ReadString buffered delim = (s, None, rest)"
  shows "length rest < length buffered"
proof -
  have "length (dropWhile (\<lambda>c. c \<noteq> delim) buffered) \<le> length buffered"
    by (rule length_dropWhile_le)
  with assms show ?thesis
    by (auto simp: ReadString_def split: list.splits)
qed

section \<open>The locator producer\<close>

text \<open>The envelope test of \<^verbatim>\<open>iter\<close> on a line as read, and the characters it strips.\<close>

definition envelope :: "string \<Rightarrow> bool" where
  "envelope s =
     (let trimmed = TrimSpace s
      in \<not> (\<not> HasPrefix trimmed ''{'' \<or> \<not> HasSuffix trimmed ''}''))"

definition cutset_iter :: string where
  "cutset_iter = [CHR ''{'', CHR 0x22, CHR '' '', CHR 0x0A, CHR ''}'']"

text \<open>
  The loop of the goroutine of \<^verbatim>\<open>iter\<close>; the result is the sequence of strings sent
  on the channel \<^verbatim>\<open>out\<close> before it is closed.
\<close>

function iter_loop :: "string \<Rightarrow> go_int \<Rightarrow> go_int \<Rightarrow> string list" where
  "iter_loop buffered maxl start =
     (if maxl <s 0 \<or> start <s maxl then
        (case ReadString buffered newline of
           (s, Some e, rest) \<Rightarrow> []
         | (s, None, rest) \<Rightarrow>
             if \<not> envelope s then iter_loop rest maxl start
             else Trim s cutset_iter # iter_loop rest maxl (start + 1))
      else [])"
  by pat_completeness auto
termination
  by (relation "measure (\<lambda>(buffered, maxl, start). length buffered)")
    (auto dest: ReadString_shorter [OF sym])

declare iter_loop.simps [simp del]

text \<open>\<^verbatim>\<open>iter(source, max)\<close>; the parameter \<^verbatim>\<open>max\<close> is written \<open>maxl\<close>.\<close>

definition iter :: "string \<Rightarrow> go_int \<Rightarrow> string list" where
  "iter source maxl = iter_loop source maxl 0"


section \<open>Package strconv and the verb %d\<close>

text \<open>
  \<^verbatim>\<open>strconv.Atoi(s)\<close> is \<^verbatim>\<open>ParseInt(s, 10, 0)\<close> converted to \<^verbatim>\<open>int\<close>: an optional sign, then
  decimal digits only; \<open>ErrSyntax\<close> for an empty string or another character,
  \<open>ErrRange\<close> when the value does not fit. The error names \<^verbatim>\<open>Atoi\<close> and the input.
\<close>

definition isDigit :: "char \<Rightarrow> bool" where
  "isDigit c = (48 \<le> (of_char c :: nat) \<and> (of_char c :: nat) \<le> 57)"

definition digitVal :: "char \<Rightarrow> nat" where
  "digitVal c = of_char c - 48"

fun ParseUint_loop :: "nat \<Rightarrow> string \<Rightarrow> error + nat" where
  "ParseUint_loop n [] = Inr n"
| "ParseUint_loop n (c # cs) =
     (if \<not> isDigit c then Inl ErrSyntax
      else if 2 ^ 64 \<le> n * 10 + digitVal c then Inl ErrRange
      else ParseUint_loop (n * 10 + digitVal c) cs)"

definition ParseUint :: "string \<Rightarrow> error + nat" where
  "ParseUint s = (if s = [] then Inl ErrSyntax else ParseUint_loop 0 s)"

definition ParseInt :: "string \<Rightarrow> error + go_int" where
  "ParseInt s0 =
     (if s0 = [] then Inl ErrSyntax
      else
        let neg = (hd s0 = CHR ''-'');
            s = (if hd s0 = CHR ''+'' \<or> hd s0 = CHR ''-'' then tl s0 else s0)
        in case ParseUint s of
             Inl e \<Rightarrow> Inl e
           | Inr un \<Rightarrow>
               if \<not> neg \<and> 2 ^ 63 \<le> un then Inl ErrRange
               else if neg \<and> 2 ^ 63 < un then Inl ErrRange
               else Inr (if neg then - of_nat un else of_nat un))"

definition Atoi :: "string \<Rightarrow> error + go_int" where
  "Atoi s = (case ParseInt s of Inl e \<Rightarrow> Inl (NumError ''Atoi'' s e) | Inr n \<Rightarrow> Inr n)"

fun digits :: "nat \<Rightarrow> string" where
  "digits n =
     (if n < 10 then [''0123456789'' ! n]
      else digits (n div 10) @ [''0123456789'' ! (n mod 10)])"

declare digits.simps [simp del]

definition fmt_d :: "go_int \<Rightarrow> string" where
  "fmt_d x = (if x <s 0 then ''-'' @ digits (nat (- sint x)) else digits (nat (sint x)))"

section \<open>The fetcher\<close>

record ravenResult =
  url :: string
  completed :: bool
  status :: go_int
  exception :: "error option"
  size_r :: go_int
  ambiguous :: bool

text \<open>
  What \<^verbatim>\<open>client.Get\<close> hands back is an error or a response; of a response the
  program reads the status code and the header.
\<close>

record response =
  StatusCode :: go_int
  Header :: "string \<rightharpoonup> string list"

definition Header_Get :: "(string \<rightharpoonup> string list) \<Rightarrow> string \<Rightarrow> string" where
  "Header_Get h key = (case h key of None \<Rightarrow> [] | Some [] \<Rightarrow> [] | Some (v # vs) \<Rightarrow> v)"

text \<open>
  The result that \<^verbatim>\<open>resultProcessor.fetch\<close> sends on \<^verbatim>\<open>p.results\<close>, from the outcome
  \<open>got\<close> of \<^verbatim>\<open>client.Get\<close>. Fields that a composite literal leaves out have their
  zero values.
\<close>

definition fetch :: "URL \<Rightarrow> error + response \<Rightarrow> ravenResult" where
  "fetch resource got =
     (case got of
        Inl e \<Rightarrow>
          \<lparr>url = resource, completed = True, status = 0, exception = Some e,
           size_r = 0, ambiguous = False\<rparr>
      | Inr response \<Rightarrow>
          if 399 <s StatusCode response then
            \<lparr>url = resource, completed = True, status = 0,
             exception = Some (Errorf (''invalid status code: '' @ fmt_d (StatusCode response))),
             size_r = 0, ambiguous = False\<rparr>
          else
            let value = Header_Get (Header response) ''Content-Length''
            in if length value \<le> 0 then
                 \<lparr>url = resource, completed = True, status = 0,
                  exception = Some (Errorf (''no-content-length (status code '' @
                    fmt_d (StatusCode response) @ ''): '' @ resource)),
                  size_r = 0, ambiguous = True\<rparr>
               else
                 (case Atoi value of
                    Inl e \<Rightarrow>
                      \<lparr>url = resource, completed = True, status = 0, exception = Some e,
                       size_r = 0, ambiguous = True\<rparr>
                  | Inr len \<Rightarrow>
                      \<lparr>url = resource, completed = True, status = StatusCode response,
                       exception = None, size_r = len, ambiguous = False\<rparr>))"

section \<open>The aggregator\<close>

text \<open>
  The fields \<^verbatim>\<open>sum\<close>, \<^verbatim>\<open>max\<close>, \<^verbatim>\<open>min\<close> and \<^verbatim>\<open>count\<close> of \<^verbatim>\<open>flockMetrics\<close> are written
  \<open>sum_m\<close>, \<open>max_m\<close>, \<open>min_m\<close> and \<open>count_m\<close>, and the field \<^verbatim>\<open>size\<close> of \<^verbatim>\<open>ravenResult\<close>
  is \<open>size_r\<close>. The field \<^verbatim>\<open>ambiguous\<close> of a result is \<open>ravenResult.ambiguous\<close>.
\<close>

record 'f flockMetrics =
  failed :: go_int
  average :: 'f
  sum_m :: go_int
  max_m :: go_int
  min_m :: go_int
  count_m :: go_int
  sizes :: "'f list"
  ambiguous :: "error option list"

definition add :: "('f, 'q) platform \<Rightarrow> 'f flockMetrics \<Rightarrow> ravenResult \<Rightarrow> 'f flockMetrics" where
  "add P m raven =
     (let m1 = m\<lparr>count_m := count_m m + 1\<rparr>;
          m2 = (if ravenResult.ambiguous raven
                then m1\<lparr>ambiguous := ambiguous m1 @ [exception raven]\<rparr> else m1)
      in if exception raven \<noteq> None then m2\<lparr>failed := failed m2 + 1\<rparr>
         else
           let m3 = (if max_m m2 <s size_r raven then m2\<lparr>max_m := size_r raven\<rparr> else m2);
               m4 = (if size_r raven <s min_m m3 then m3\<lparr>min_m := size_r raven\<rparr> else m3);
               m5 = m4\<lparr>sizes := sizes m4 @ [float64 P (size_r raven)]\<rparr>
           in m5\<lparr>sum_m := sum_m m5 + size_r raven\<rparr>)"

text \<open>The value of \<^verbatim>\<open>rollup\<close> when \<^verbatim>\<open>main\<close> creates it: the fields \<^verbatim>\<open>main\<close> does not set are zero.\<close>

definition rollup0 :: "('f, 'q) platform \<Rightarrow> 'f flockMetrics" where
  "rollup0 P =
     \<lparr>failed = 0, average = float64 P 0, sum_m = 0, max_m = 0, min_m = 0, count_m = 0,
      sizes = [], ambiguous = []\<rparr>"

text \<open>
  The goroutine that ranges over \<^verbatim>\<open>results\<close>: \<open>drain\<close> is \<^verbatim>\<open>rollup\<close> once the channel is
  closed, from the results in the order they were received. \<open>finish\<close> is the
  assignment to \<^verbatim>\<open>rollup.average\<close> that follows in \<^verbatim>\<open>main\<close>.
\<close>

definition drain :: "('f, 'q) platform \<Rightarrow> ravenResult list \<Rightarrow> 'f flockMetrics" where
  "drain P results = fold (\<lambda>raven m. add P m raven) results (rollup0 P)"

definition finish :: "('f, 'q) platform \<Rightarrow> 'f flockMetrics \<Rightarrow> 'f flockMetrics" where
  "finish P m = m\<lparr>average := fdiv P (float64 P (sum_m m)) (float64 P (count_m m))\<rparr>"

section \<open>The reporter\<close>

text \<open>
  Of \<^verbatim>\<open>stats.Quartile\<close> and \<^verbatim>\<open>Percentile\<close> (github.com/montanaflynn/stats) the model
  fixes what the library documents for an empty input, the error \<open>EmptyInput\<close>.
  What they return otherwise, a value or another error, is the platform's.
\<close>

definition Quartile :: "('f, 'q) platform \<Rightarrow> 'f list \<Rightarrow> error + 'q" where
  "Quartile P input = (if length input = 0 then Inl EmptyInput else quartiles P input)"

definition Percentile :: "('f, 'q) platform \<Rightarrow> 'f list \<Rightarrow> nat \<Rightarrow> error + 'f" where
  "Percentile P input percent =
     (if length input = 0 then Inl EmptyInput else percentile P input percent)"

definition String :: "('f, 'q) platform \<Rightarrow> 'f flockMetrics \<Rightarrow> string" where
  "String P m =
     (case Quartile P (sizes m) of
        Inl e \<Rightarrow> ''invalid flock metrics, error: '' @ fmt_e P (Some e)
      | Inr quarters \<Rightarrow>
     (case Percentile P (sizes m) 99 of
        Inl e \<Rightarrow> ''invalid flock metrics, error: '' @ fmt_e P (Some e)
      | Inr ninenine \<Rightarrow>
     (case Percentile P (sizes m) 95 of
        Inl e \<Rightarrow> ''invalid flock metrics, error: '' @ fmt_e P (Some e)
      | Inr ninefive \<Rightarrow>
          let metrics =
                [''count['' @ fmt_d (count_m m) @ '']'',
                 ''max['' @ fmt_d (max_m m) @ '']'',
                 ''min['' @ fmt_d (min_m m) @ '']'',
                 ''avg['' @ fmt_f P (average m) @ '']'',
                 ''quartiles['' @ fmt_q P quarters @ '']'',
                 ''95['' @ fmt_f P ninefive @ '']'',
                 ''99['' @ fmt_f P ninenine @ '']'',
                 ''failed['' @ fmt_d (failed m) @ '']'',
                 ''ambiguous['' @ fmt_d (of_nat (length (ambiguous m))) @ '']''];
              metrics' =
                (if length (ambiguous m) > 0 then
                   let listing = map (\<lambda>e. fmt_e P e @ [newline]) (ambiguous m)
                   in metrics @
                      [[newline] @ ''AMBIGUOUS RAVENS:'' @ [newline] @ Join listing [] @ [newline]]
                 else metrics)
          in Join metrics' '' '')))"

text \<open>The line \<^verbatim>\<open>main\<close> prints last, from the results in the order the aggregator received them.\<close>

definition report :: "('f, 'q) platform \<Rightarrow> ravenResult list \<Rightarrow> string" where
  "report P results = ''done: '' @ String P (finish P (drain P results)) @ [newline]"

section \<open>The dispatch loop\<close>

record cliOptions =
  stdout :: bool
  maxLines :: go_int
  concurrency :: go_int

text \<open>
  The loop of \<^verbatim>\<open>main\<close> over the lines that \<^verbatim>\<open>iter\<close> sends. The result lists the calls
  \<^verbatim>\<open>go processor.fetch(url, wg)\<close> in the order they are made, each with the line it is
  made for. (The counter \<^verbatim>\<open>leader\<close> is only printed.)
\<close>

fun dispatch_loop ::
  "('f, 'q) platform \<Rightarrow> (string \<rightharpoonup> bool) \<Rightarrow> string list \<Rightarrow> (string \<times> URL) list" where
  "dispatch_loop P duplicates [] = []"
| "dispatch_loop P duplicates (line # lines) =
     (let present = (duplicates line \<noteq> None)
      in if present then dispatch_loop P duplicates lines
         else
           (case Parse P line of
              Inl e \<Rightarrow> dispatch_loop P duplicates lines
            | Inr u \<Rightarrow> (line, u) # dispatch_loop P (duplicates(line \<mapsto> True)) lines))"

definition dispatched :: "('f, 'q) platform \<Rightarrow> cliOptions \<Rightarrow> string \<Rightarrow> (string \<times> URL) list" where
  "dispatched P options source = dispatch_loop P Map.empty (iter source (maxLines options))"

section \<open>The pool of clients and the fetcher goroutines\<close>

text \<open>
  A goroutine running \<^verbatim>\<open>resultProcessor.fetch\<close> is \<open>Waiting\<close> at \<^verbatim>\<open>client := <-p.queue\<close>,
  then \<open>Holding\<close> the client it received until it has sent its result on
  \<^verbatim>\<open>p.results\<close>, then \<open>Exiting\<close>: it has returned and its deferred
  \<^verbatim>\<open>p.queue <- client\<close> is due, and \<open>Returned\<close> after that. Clients are numbered.
\<close>

datatype fetcher = Waiting URL | Holding URL nat | Exiting nat | Returned

text \<open>
  The channel \<^verbatim>\<open>fetchers\<close> (its capacity and the clients in it, oldest first), the
  goroutines \<^verbatim>\<open>main\<close> has started, and the results the aggregator has received.
\<close>

record system =
  capacity :: nat
  queue :: "nat list"
  tasks :: "fetcher list"
  received :: "ravenResult list"

text \<open>\<^verbatim>\<open>main\<close> makes the channel with capacity \<^verbatim>\<open>options.concurrency\<close> and fills it.\<close>

definition launch :: "cliOptions \<Rightarrow> URL list \<Rightarrow> system" where
  "launch options urls =
     (let n = nat (sint (concurrency options))
      in \<lparr>capacity = n, queue = [0..<n], tasks = map Waiting urls, received = []\<rparr>)"

text \<open>
  One step of one goroutine. \<open>Acquire i\<close>: goroutine \<open>i\<close> receives a client (it waits
  while the channel is empty). \<open>Respond i got\<close>: \<^verbatim>\<open>client.Get\<close> has come back with \<open>got\<close>,
  and the goroutine sends the one result of its return path, which the
  aggregator receives. \<open>Release i\<close>: the deferred send of the client (it would wait
  while the channel is full). \<open>None\<close> means the step cannot be taken.
\<close>

datatype action = Acquire nat | Respond nat "error + response" | Release nat

fun fire :: "system \<Rightarrow> action \<Rightarrow> system option" where
  "fire s (Acquire i) =
     (if i < length (tasks s) then
        (case tasks s ! i of
           Waiting u \<Rightarrow>
             (case queue s of
                [] \<Rightarrow> None
              | c # q \<Rightarrow> Some (s\<lparr>queue := q, tasks := (tasks s)[i := Holding u c]\<rparr>))
         | _ \<Rightarrow> None)
      else None)"
| "fire s (Respond i got) =
     (if i < length (tasks s) then
        (case tasks s ! i of
           Holding u c \<Rightarrow>
             Some (s\<lparr>tasks := (tasks s)[i := Exiting c], received := received s @ [fetch u got]\<rparr>)
         | _ \<Rightarrow> None)
      else None)"
| "fire s (Release i) =
     (if i < length (tasks s) then
        (case tasks s ! i of
           Exiting c \<Rightarrow>
             if length (queue s) < capacity s
             then Some (s\<lparr>queue := queue s @ [c], tasks := (tasks s)[i := Returned]\<rparr>)
             else None
         | _ \<Rightarrow> None)
      else None)"

fun exec :: "system \<Rightarrow> action list \<Rightarrow> system option" where
  "exec s [] = Some s"
| "exec s (a # acts) = (case fire s a of None \<Rightarrow> None | Some s' \<Rightarrow> exec s' acts)"

text \<open>The clients that are out of the channel, and the point where \<^verbatim>\<open>wg.Wait()\<close> returns.\<close>

fun holds :: "fetcher \<Rightarrow> bool" where
  "holds (Holding u c) = True"
| "holds (Exiting c) = True"
| "holds (Waiting u) = False"
| "holds Returned = False"

definition outstanding :: "system \<Rightarrow> nat" where
  "outstanding s = length (filter holds (tasks s))"

definition finished :: "system \<Rightarrow> bool" where
  "finished s = list_all (\<lambda>t. t = Returned) (tasks s)"

section \<open>Reference notions for the statements\<close>

text \<open>The lines of a source that end in a newline, each with its newline, in order.\<close>

fun terminated_lines :: "string \<Rightarrow> string \<Rightarrow> string list" where
  "terminated_lines cur [] = []"
| "terminated_lines cur (c # cs) =
     (if c = newline then (cur @ [c]) # terminated_lines [] cs
      else terminated_lines (cur @ [c]) cs)"

text \<open>The results that carry no error, and their sizes as integers.\<close>

definition successful :: "ravenResult list \<Rightarrow> ravenResult list" where
  "successful results = filter (\<lambda>raven. exception raven = None) results"

text \<open>A line of the input file in the format \<^verbatim>\<open>{"<url>"}\<close>, without its newline.\<close>

definition entry :: "string \<Rightarrow> string" where
  "entry u = [CHR ''{'', CHR 0x22] @ u @ [CHR 0x22, CHR ''}'']"

text \<open>
  An instance of the platform, for evaluating the model on examples. Its numbers
  are exact rationals. Its quartiles are the medians of the lower half, of the
  whole and of the upper half of the sorted sample, and fail when a half is
  empty; its percentile is the element of the sorted sample at the rank, or the
  mean of the two elements around it, and fails when the rank is at most 1 and
  not whole. A URL is rejected when it has a control character and is its own
  \<^verbatim>\<open>String()\<close> form otherwise, and an error prints as its message.
\<close>

definition median_rat :: "rat list \<Rightarrow> error + rat" where
  "median_rat xs =
     (let c = sort xs; l = length c
      in if l = 0 then Inl EmptyInput
         else if l mod 2 = 0 then Inr ((c ! (l div 2 - 1) + c ! (l div 2)) / 2)
         else Inr (c ! (l div 2)))"

definition quartiles_rat :: "rat list \<Rightarrow> error + rat \<times> rat \<times> rat" where
  "quartiles_rat xs =
     (let c = sort xs; il = length c;
          c1 = (if il mod 2 = 0 then il div 2 else (il - 1) div 2);
          c2 = (if il mod 2 = 0 then il div 2 else c1 + 1)
      in case median_rat (take c1 c) of
           Inl e \<Rightarrow> Inl e
         | Inr q1 \<Rightarrow>
             (case median_rat c of
                Inl e \<Rightarrow> Inl e
              | Inr q2 \<Rightarrow>
                  (case median_rat (drop c2 c) of
                     Inl e \<Rightarrow> Inl e
                   | Inr q3 \<Rightarrow> Inr (q1, q2, q3))))"

definition percentile_rat :: "rat list \<Rightarrow> nat \<Rightarrow> error + rat" where
  "percentile_rat xs p =
     (let c = sort xs; n = length c
      in if p = 0 \<or> 100 < p then Inl (External ''Input is outside of range.'')
         else if (p * n) mod 100 = 0 then Inr (c ! (p * n div 100 - 1))
         else if 100 < p * n then Inr ((c ! (p * n div 100 - 1) + c ! (p * n div 100)) / 2)
         else Inl (External ''Input is outside of range.''))"

definition fmt_rat :: "rat \<Rightarrow> string" where
  "fmt_rat r =
     (case quotient_of r of
        (n, d) \<Rightarrow> (if n < 0 then ''-'' else []) @ digits (nat \<bar>n\<bar>) @ ''/'' @ digits (nat d))"

fun message :: "error \<Rightarrow> string" where
  "message EOF = ''EOF''"
| "message ErrSyntax = ''invalid syntax''"
| "message ErrRange = ''value out of range''"
| "message (NumError f n e) =
     ''strconv.'' @ f @ '': parsing '' @ [CHR 0x22] @ n @ [CHR 0x22] @ '': '' @ message e"
| "message (Errorf msg) = msg"
| "message EmptyInput = ''Input must not be empty.''"
| "message (External msg) = msg"

definition exact_platform :: "(rat, rat \<times> rat \<times> rat) platform" where
  "exact_platform =
     \<lparr>Parse = (\<lambda>s. if \<exists>c\<in>set s. (of_char c :: nat) < 32 \<or> (of_char c :: nat) = 127
                    then Inl (External ''net/url: invalid control character in URL'')
                    else Inr s),
      float64 = (\<lambda>x. of_int (sint x)),
      fdiv = (\<lambda>a b. a / b),
      quartiles = quartiles_rat,
      percentile = percentile_rat,
      fmt_f = fmt_rat,
      fmt_q = (\<lambda>(a, b, c). ''{'' @ fmt_rat a @ '' '' @ fmt_rat b @ '' '' @ fmt_rat c @ ''}''),
      fmt_e = (\<lambda>e. case e of None \<Rightarrow> ''<nil>'' | Some x \<Rightarrow> message x)\<rparr>"

text \<open>
  The integer that a string denotes as a decimal numeral with an optional sign
  (\<^verbatim>\<open>+\<close> or \<^verbatim>\<open>-\<close>), when it is one: at least one digit, and digits only.
\<close>

definition decimal :: "string \<Rightarrow> nat" where
  "decimal ds = foldl (\<lambda>n c. n * 10 + digitVal c) 0 ds"

definition numeral_of :: "string \<Rightarrow> int option" where
  "numeral_of s =
     (let neg = (s \<noteq> [] \<and> hd s = CHR ''-'');
          ds = (if s \<noteq> [] \<and> (hd s = CHR ''+'' \<or> hd s = CHR ''-'') then tl s else s)
      in if ds \<noteq> [] \<and> list_all isDigit ds
         then Some (if neg then - int (decimal ds) else int (decimal ds))
         else None)"

text \<open>A response with the given status code and \<^verbatim>\<open>Content-Length\<close> header (none when empty).\<close>

definition reply :: "go_int \<Rightarrow> string \<Rightarrow> error + response" where
  "reply code len =
     Inr \<lparr>StatusCode = code,
          Header = (if len = [] then Map.empty else [''Content-Length'' \<mapsto> [len]])\<rparr>"

text \<open>The options as \<^verbatim>\<open>flag.Parse\<close> leaves them when no flag is given.\<close>

definition defaults :: cliOptions where
  "defaults = \<lparr>stdout = True, maxLines = - 1, concurrency = 30\<rparr>"

text \<open>A goroutine that has sent its result; the steps a goroutine has left; and the invariant of the pool.\<close>

fun sent :: "fetcher \<Rightarrow> bool" where
  "sent (Exiting c) = True"
| "sent Returned = True"
| "sent (Waiting u) = False"
| "sent (Holding u c) = False"

fun steps_left :: "fetcher \<Rightarrow> nat" where
  "steps_left (Waiting u) = 3"
| "steps_left (Holding u c) = 2"
| "steps_left (Exiting c) = 1"
| "steps_left Returned = 0"

definition work :: "system \<Rightarrow> nat" where
  "work s = sum_list (map steps_left (tasks s))"

definition balanced :: "system \<Rightarrow> bool" where
  "balanced s \<longleftrightarrow>
     outstanding s + length (queue s) = capacity s \<and>
     length (received s) = length (filter sent (tasks s))"

text \<open>An input with a duplicate and a line that is no envelope.\<close>

definition two_and_junk :: string where
  "two_and_junk = entry ''http://a'' @ [newline] @ ''junk'' @ [newline]
     @ entry ''http://b'' @ [newline] @ entry ''http://a'' @ [newline]"

section \<open>The producer: what it emits\<close>

lemma ReadString_Cons:
  "ReadString (c # cs) d =
     (if c = d then ([c], None, cs)
      else (case ReadString cs d of (s, e, rest) \<Rightarrow> (c # s, e, rest)))"
proof (cases "c = d")
  case True
  then show ?thesis by (simp add: ReadString_def)
next
  case False
  then show ?thesis
    by (simp add: ReadString_def del: dropWhile_eq_Nil_conv split: list.split)
qed

lemma ReadString_Nil: "ReadString [] d = ([], Some EOF, [])"
  by (simp add: ReadString_def)

text \<open>Each successful read is the next terminated line.\<close>

lemma terminated_lines_ReadString:
  "terminated_lines cur buf =
     (case ReadString buf newline of
        (s, Some e, rest) \<Rightarrow> []
      | (s, None, rest) \<Rightarrow> (cur @ s) # terminated_lines [] rest)"
proof (induction buf arbitrary: cur)
  case Nil
  show ?case by (simp add: ReadString_Nil)
next
  case (Cons c cs)
  show ?case
  proof (cases "c = newline")
    case True
    then show ?thesis by (simp add: ReadString_Cons)
  next
    case False
    then show ?thesis
      using Cons.IH [of "cur @ [c]"]
      by (simp add: ReadString_Cons split: prod.splits option.splits)
  qed
qed

lemma iter_loop_unbounded:
  "maxl <s 0 \<Longrightarrow>
   iter_loop buf maxl n =
     map (\<lambda>s. Trim s cutset_iter) (filter envelope (terminated_lines [] buf))"
proof (induction buf maxl n rule: iter_loop.induct)
  case (1 buffered maxl n)
  show ?case
  proof (cases "ReadString buffered newline")
    case (fields s e rest)
    show ?thesis
    proof (cases e)
      case None
      with fields 1 show ?thesis
        by (subst iter_loop.simps, subst terminated_lines_ReadString) simp
    next
      case (Some a)
      with fields 1 show ?thesis
        by (subst iter_loop.simps, subst terminated_lines_ReadString) simp
    qed
  qed
qed

text \<open>With a limit, the counter cannot wrap: it is below the limit whenever it is incremented.\<close>

lemma iter_loop_bounded:
  "\<not> maxl <s 0 \<Longrightarrow>
   iter_loop buf maxl n =
     take (nat (sint maxl - sint n))
       (map (\<lambda>s. Trim s cutset_iter) (filter envelope (terminated_lines [] buf)))"
proof (induction buf maxl n rule: iter_loop.induct)
  case (1 buffered maxl n)
  show ?case
  proof (cases "n <s maxl")
    case False
    then have "nat (sint maxl - sint n) = 0"
      by (simp add: word_sless_alt)
    with False 1 show ?thesis
      by (subst iter_loop.simps) simp
  next
    case True
    then have lt: "sint n < sint maxl" by (simp add: word_sless_alt)
    have "sint maxl \<le> 2 ^ 63 - 1"
      using sint_lt [of maxl] by simp
    with lt have "sint (n + 1) = sint n + 1"
      using sint_ge [of n] by (simp add: signed_take_bit_int_eq_self sint_word_ariths)
    with lt have step: "nat (sint maxl - sint n) = Suc (nat (sint maxl - sint (n + 1)))"
      by simp
    show ?thesis
    proof (cases "ReadString buffered newline")
      case (fields s e rest)
      show ?thesis
      proof (cases e)
        case None
        with fields 1 True step show ?thesis
          by (subst iter_loop.simps, subst terminated_lines_ReadString) simp
      next
        case (Some a)
        with fields 1 True show ?thesis
          by (subst iter_loop.simps, subst terminated_lines_ReadString) simp
      qed
    qed
  qed
qed

lemma iter_eq:
  "iter source maxl =
     map (\<lambda>s. Trim s cutset_iter)
       (if maxl <s 0 then filter envelope (terminated_lines [] source)
        else take (nat (sint maxl)) (filter envelope (terminated_lines [] source)))"
proof (cases "maxl <s 0")
  case True
  then show ?thesis
    by (simp add: iter_def iter_loop_unbounded)
next
  case False
  then show ?thesis
    by (simp add: iter_def iter_loop_bounded take_map)
qed

text \<open>
  C5. The lines that fail the envelope test are skipped and do not count: what
  \<^verbatim>\<open>iter\<close> emits are the accepted lines (the terminated lines of the source that
  pass the test, in order, each stripped), all of them when the limit is
  negative and otherwise the first \<^verbatim>\<open>max\<close> of them, or all when there are fewer.
\<close>

theorem iter_accepts_up_to_max:
  "iter source maxl =
     (let accepted = filter envelope (terminated_lines [] source)
      in map (\<lambda>s. Trim s cutset_iter)
           (if maxl <s 0 then accepted else take (nat (sint maxl)) accepted))"
  by (simp add: iter_eq Let_def)

theorem iter_accepts_up_to_max_witness:
  "iter (''junk'' @ [newline] @ entry ''http://a'' @ [newline] @ '' {b} '' @ [newline]
        @ ''{c}'' @ [newline]) 1 = [''http://a''] \<and>
   iter (''junk'' @ [newline] @ entry ''http://a'' @ [newline] @ '' {b} '' @ [newline]
        @ ''{c}'' @ [newline]) (- 1) = [''http://a'', ''b'', ''c'']"
proof -
  let ?src = "''junk'' @ [newline] @ entry ''http://a'' @ [newline] @ '' {b} '' @ [newline]
        @ ''{c}'' @ [newline]"
  have a: "(let accepted = filter envelope (terminated_lines [] ?src)
      in map (\<lambda>s. Trim s cutset_iter)
           (if (1 :: go_int) <s 0 then accepted else take (nat (sint (1 :: go_int))) accepted))
      = [''http://a'']"
    by code_simp
  have b: "(let accepted = filter envelope (terminated_lines [] ?src)
      in map (\<lambda>s. Trim s cutset_iter)
           (if (- 1 :: go_int) <s 0 then accepted
            else take (nat (sint (- 1 :: go_int))) accepted))
      = [''http://a'', ''b'', ''c'']"
    by code_simp
  show ?thesis
    using trans [OF iter_accepts_up_to_max a] trans [OF iter_accepts_up_to_max b] by simp
qed

lemma terminated_lines_no_newline:
  "newline \<notin> set frag \<Longrightarrow> terminated_lines cur frag = []"
  by (induction frag arbitrary: cur) auto

lemma terminated_lines_append_fragment:
  "newline \<notin> set frag \<Longrightarrow> terminated_lines cur (body @ frag) = terminated_lines cur body"
  by (induction body arbitrary: cur) (auto simp: terminated_lines_no_newline)

text \<open>
  C10. When the input ends in a line without a newline, that line is not among
  the lines the loop examines, and \<^verbatim>\<open>iter\<close> emits exactly what it emits for the
  input without it, whatever the line is: the read that returns it returns the
  error too, and the loop ends.
\<close>

theorem unterminated_final_line_dropped:
  assumes "newline \<notin> set final"
  shows "terminated_lines [] (body @ final) = terminated_lines [] body \<and>
         iter (body @ final) maxl = iter body maxl"
  using assms
  by (simp add: iter_eq terminated_lines_append_fragment)

theorem unterminated_final_line_dropped_witness:
  "newline \<notin> set (entry ''http://b'') \<and> envelope (entry ''http://b'') \<and>
   iter ((entry ''http://a'' @ [newline]) @ entry ''http://b'') (- 1)
     = iter (entry ''http://a'' @ [newline]) (- 1) \<and>
   iter (entry ''http://a'' @ [newline]) (- 1) = [''http://a'']"
proof -
  have h: "newline \<notin> set (entry ''http://b'')"
    by code_simp
  have e: "envelope (entry ''http://b'')"
    by code_simp
  have i: "iter (entry ''http://a'' @ [newline]) (- 1) = [''http://a'']"
    by code_simp
  show ?thesis
    using h e i unterminated_final_line_dropped [OF h, of "entry ''http://a'' @ [newline]" "- 1"]
    by blast
qed

section \<open>The producer: how a line is stripped\<close>

lemma Trim_decompose:
  "\<exists>pre post. s = pre @ Trim s cs @ post \<and> set pre \<subseteq> set cs \<and> set post \<subseteq> set cs"
proof -
  let ?P = "\<lambda>c. c \<in> set cs"
  let ?t = "dropWhile ?P s"
  have s: "s = takeWhile ?P s @ ?t" by simp
  have "?t = rev (dropWhile ?P (rev ?t)) @ rev (takeWhile ?P (rev ?t))"
    by (metis rev_append rev_rev_ident takeWhile_dropWhile_id)
  then have t: "?t = Trim s cs @ rev (takeWhile ?P (rev ?t))"
    by (simp only: Trim_def)
  have 1: "set (takeWhile ?P s) \<subseteq> set cs"
    by (auto dest: set_takeWhileD)
  have 2: "set (rev (takeWhile ?P (rev ?t))) \<subseteq> set cs"
    by (auto dest: set_takeWhileD)
  from s t have "s = takeWhile ?P s @ Trim s cs @ rev (takeWhile ?P (rev ?t))"
    by metis
  with 1 2 show ?thesis by blast
qed

lemma last_dropWhile_keep:
  "dropWhile P xs \<noteq> [] \<Longrightarrow> last (dropWhile P xs) = last xs"
  by (induction xs) (auto split: if_splits)

lemma Trim_ends:
  assumes "Trim s cs \<noteq> []"
  shows "hd (Trim s cs) \<notin> set cs \<and> last (Trim s cs) \<notin> set cs"
proof -
  let ?P = "\<lambda>c. c \<in> set cs"
  let ?t = "dropWhile ?P s"
  let ?y = "dropWhile ?P (rev ?t)"
  from assms have y: "?y \<noteq> []" by (simp add: Trim_def)
  then have t: "?t \<noteq> []"
    by (metis dropWhile.simps(1) rev.simps(1))
  have "last (Trim s cs) = hd ?y"
    using y by (simp add: Trim_def last_rev)
  moreover have "\<not> ?P (hd ?y)"
    using y by (rule hd_dropWhile)
  moreover have "hd (Trim s cs) = last ?y"
    using y by (simp add: Trim_def hd_rev)
  moreover have "last ?y = last (rev ?t)"
    using y by (rule last_dropWhile_keep)
  moreover have "last (rev ?t) = hd ?t"
    using t by (simp add: last_rev)
  moreover have "\<not> ?P (hd ?t)"
    using t by (rule hd_dropWhile)
  ultimately show ?thesis by simp
qed

lemma terminated_lines_shape:
  "s \<in> set (terminated_lines cur buf) \<Longrightarrow> newline \<notin> set cur \<Longrightarrow>
   s \<noteq> [] \<and> last s = newline \<and> newline \<notin> set (butlast s)"
proof (induction buf arbitrary: cur)
  case Nil
  then show ?case by simp
next
  case (Cons c cs)
  show ?case
  proof (cases "c = newline")
    case True
    with Cons.prems have "s = cur @ [c] \<or> s \<in> set (terminated_lines [] cs)"
      by simp
    then show ?thesis
    proof
      assume "s = cur @ [c]"
      with True Cons.prems(2) show ?thesis by simp
    next
      assume "s \<in> set (terminated_lines [] cs)"
      then show ?thesis by (rule Cons.IH) simp
    qed
  next
    case False
    with Cons.prems have "s \<in> set (terminated_lines (cur @ [c]) cs)"
      by simp
    moreover from False Cons.prems(2) have "newline \<notin> set (cur @ [c])"
      by simp
    ultimately show ?thesis
      by (rule Cons.IH)
  qed
qed

text \<open>The newline in the cutset removes the terminator of the line and nothing of the line itself.\<close>

lemma Trim_terminated:
  assumes "newline \<notin> set line"
  shows "Trim (line @ [newline]) cutset_iter = Trim line [CHR ''{'', CHR 0x22, CHR '' '', CHR ''}'']"
proof -
  let ?P5 = "\<lambda>c. c \<in> set cutset_iter"
  let ?P4 = "\<lambda>c. c \<in> set [CHR ''{'', CHR 0x22, CHR '' '', CHR ''}'']"
  have nl: "?P5 newline"
    by (simp add: cutset_iter_def newline_def)
  have d: "dropWhile ?P5 xs = dropWhile ?P4 xs" if "newline \<notin> set xs" for xs
    using that by (induction xs) (auto simp: cutset_iter_def newline_def)
  show ?thesis
  proof (cases "\<forall>c\<in>set line. ?P5 c")
    case True
    then have "dropWhile ?P5 (line @ [newline]) = []"
      using nl by simp
    moreover from True have "dropWhile ?P5 line = []"
      by simp
    ultimately show ?thesis
      using d [OF assms] by (simp add: Trim_def del: dropWhile_eq_Nil_conv)
  next
    case False
    let ?t = "dropWhile ?P4 line"
    from False have "dropWhile ?P5 (line @ [newline]) = dropWhile ?P5 line @ [newline]"
      by (simp add: dropWhile_append)
    then have 1: "dropWhile ?P5 (line @ [newline]) = ?t @ [newline]"
      using d [OF assms] by simp
    have "newline \<notin> set (rev ?t)"
      using assms by (auto dest: set_dropWhileD)
    then have 2: "dropWhile ?P5 (rev ?t) = dropWhile ?P4 (rev ?t)"
      by (rule d)
    have "dropWhile ?P5 (rev (?t @ [newline])) = dropWhile ?P5 (rev ?t)"
      using nl by simp
    with 1 2 show ?thesis
      by (simp only: Trim_def)
  qed
qed

text \<open>
  C6. For every line that passes the envelope test, the line being the text before
  its terminating newline: the text emitted for it is that line with the
  characters \<^verbatim>\<open>{\<close>, \<^verbatim>\<open>"\<close>, space and \<^verbatim>\<open>}\<close> stripped from both ends. The line is
  what was stripped at the front, the emitted text and what was stripped at the
  end; only those four characters are stripped, and the emitted text neither
  starts nor ends with one of them.
\<close>

theorem emitted_text_is_line_stripped:
  assumes "i < length (iter source maxl)"
  shows "(let s = filter envelope (terminated_lines [] source) ! i;
              line = butlast s;
              x = iter source maxl ! i;
              stripped = {CHR ''{'', CHR 0x22, CHR '' '', CHR ''}''}
          in envelope s \<and> s = line @ [newline] \<and> newline \<notin> set line \<and>
             x = Trim line [CHR ''{'', CHR 0x22, CHR '' '', CHR ''}''] \<and>
             (\<exists>pre post. line = pre @ x @ post \<and> set pre \<subseteq> stripped \<and> set post \<subseteq> stripped) \<and>
             (x = [] \<or> (hd x \<notin> stripped \<and> last x \<notin> stripped)))"
proof -
  let ?acc = "filter envelope (terminated_lines [] source)"
  let ?s = "?acc ! i"
  let ?four = "[CHR ''{'', CHR 0x22, CHR '' '', CHR ''}'']"
  have c: "set ?four = {CHR ''{'', CHR 0x22, CHR '' '', CHR ''}''}"
    by simp
  from assms have len: "i < length ?acc"
    by (simp add: iter_eq split: if_splits)
  then have mem: "?s \<in> set ?acc" by (rule nth_mem)
  then have tl: "?s \<in> set (terminated_lines [] source)" and env: "envelope ?s"
    by simp_all
  have none: "newline \<notin> set []"
    by simp
  have shape: "?s \<noteq> [] \<and> last ?s = newline \<and> newline \<notin> set (butlast ?s)"
    by (rule terminated_lines_shape [OF tl none])
  then have s: "?s = butlast ?s @ [newline]"
    by (metis append_butlast_last_id)
  from assms len have "iter source maxl ! i = Trim ?s cutset_iter"
    by (simp add: iter_eq split: if_splits)
  also have "\<dots> = Trim (butlast ?s @ [newline]) cutset_iter"
    using s by simp
  also have "\<dots> = Trim (butlast ?s) ?four"
    using shape by (intro Trim_terminated) simp
  finally have x: "iter source maxl ! i = Trim (butlast ?s) ?four" .
  show ?thesis
    using env s shape x Trim_decompose [of "butlast ?s" ?four] Trim_ends [of "butlast ?s" ?four]
    unfolding Let_def c [symmetric] by auto
qed

theorem emitted_text_is_line_stripped_witness:
  "0 < length (iter (entry ''http://a'' @ [newline]) (- 1)) \<and>
   filter envelope (terminated_lines [] (entry ''http://a'' @ [newline])) ! 0
     = entry ''http://a'' @ [newline] \<and>
   iter (entry ''http://a'' @ [newline]) (- 1) ! 0 = ''http://a'' \<and>
   (let s = filter envelope (terminated_lines [] (entry ''http://a'' @ [newline])) ! 0
    in iter (entry ''http://a'' @ [newline]) (- 1) ! 0
       = Trim (butlast s) [CHR ''{'', CHR 0x22, CHR '' '', CHR ''}''])"
proof -
  have h: "0 < length (iter (entry ''http://a'' @ [newline]) (- 1))"
    by code_simp
  have a: "iter (entry ''http://a'' @ [newline]) (- 1) ! 0 = ''http://a''"
    by code_simp
  have b: "filter envelope (terminated_lines [] (entry ''http://a'' @ [newline])) ! 0
     = entry ''http://a'' @ [newline]"
    by code_simp
  show ?thesis
    using h a b emitted_text_is_line_stripped [OF h]
    unfolding Let_def by blast
qed

section \<open>The dispatch loop: one fetch for each line\<close>

lemma dispatch_loop_skip:
  "dups line \<noteq> None \<or> (\<exists>e. Parse P line = Inl e) \<Longrightarrow>
   dispatch_loop P dups (line # lines) = dispatch_loop P dups lines"
  by (auto simp: Let_def)

lemma dispatch_loop_go:
  "dups line = None \<Longrightarrow> Parse P line = Inr u \<Longrightarrow>
   dispatch_loop P dups (line # lines) = (line, u) # dispatch_loop P (dups(line \<mapsto> True)) lines"
  by (simp add: Let_def)

lemma dispatch_line_count:
  "count_list (map fst (dispatch_loop P dups ls)) l =
     (if l \<in> set ls \<and> dups l = None \<and> (\<exists>u. Parse P l = Inr u) then 1 else 0)"
proof (induction ls arbitrary: dups)
  case Nil
  show ?case by simp
next
  case (Cons line lines)
  show ?case
  proof (cases "dups line = None")
    case False
    then have "dispatch_loop P dups (line # lines) = dispatch_loop P dups lines"
      by (simp add: dispatch_loop_skip)
    with False show ?thesis
      using Cons.IH [of dups] by auto
  next
    case True
    show ?thesis
    proof (cases "Parse P line")
      case (Inl e)
      then have "dispatch_loop P dups (line # lines) = dispatch_loop P dups lines"
        by (simp add: dispatch_loop_skip)
      with Inl show ?thesis
        using Cons.IH [of dups] by auto
    next
      case (Inr u)
      with True have go: "dispatch_loop P dups (line # lines)
          = (line, u) # dispatch_loop P (dups(line \<mapsto> True)) lines"
        by (simp add: dispatch_loop_go)
      show ?thesis
      proof (cases "l = line")
        case same: True
        have "count_list (map fst (dispatch_loop P (dups(line \<mapsto> True)) lines)) l = 0"
          by (simp only: Cons.IH) (simp add: same)
        with same True Inr go show ?thesis by simp
      next
        case other: False
        then have "(dups(line \<mapsto> True)) l = dups l"
          by simp
        then have "count_list (map fst (dispatch_loop P (dups(line \<mapsto> True)) lines)) l
            = (if l \<in> set lines \<and> dups l = None \<and> (\<exists>u. Parse P l = Inr u) then 1 else 0)"
          by (simp only: Cons.IH)
        with other go show ?thesis by simp
      qed
    qed
  qed
qed

lemma dispatch_prefix:
  "prefix (dispatch_loop P dups (take n ls)) (dispatch_loop P dups ls)"
proof (induction ls arbitrary: n dups)
  case Nil
  show ?case by simp
next
  case (Cons line lines)
  show ?case
  proof (cases n)
    case 0
    then show ?thesis by simp
  next
    case (Suc k)
    then show ?thesis
      using Cons.IH [where n = k] by (auto simp: Let_def split: sum.splits)
  qed
qed

lemma dispatch_parsed:
  "(l, u) \<in> set (dispatch_loop P dups ls) \<Longrightarrow> Parse P l = Inr u"
  by (induction ls arbitrary: dups) (auto simp: Let_def split: if_splits sum.splits)

lemma dispatch_member:
  assumes "l \<in> set ls" "dups l = None" "Parse P l = Inr u"
  shows "(l, u) \<in> set (dispatch_loop P dups ls)"
proof -
  from assms have "count_list (map fst (dispatch_loop P dups ls)) l = 1"
    by (simp add: dispatch_line_count)
  then have "l \<in> set (map fst (dispatch_loop P dups ls))"
    by (metis count_list_0_iff zero_neq_one)
  then obtain v where "(l, v) \<in> set (dispatch_loop P dups ls)"
    by auto
  moreover from this have "Parse P l = Inr v"
    by (rule dispatch_parsed)
  ultimately show ?thesis
    using assms(3) by simp
qed

lemma dispatch_set:
  "fst ` set (dispatch_loop P dups ls) = {l \<in> set ls. dups l = None \<and> (\<exists>u. Parse P l = Inr u)}"
proof (rule set_eqI)
  fix l
  have "l \<in> set (map fst (dispatch_loop P dups ls))
      \<longleftrightarrow> count_list (map fst (dispatch_loop P dups ls)) l \<noteq> 0"
    by (simp only: count_list_0_iff) simp
  then show "l \<in> fst ` set (dispatch_loop P dups ls)
      \<longleftrightarrow> l \<in> {l \<in> set ls. dups l = None \<and> (\<exists>u. Parse P l = Inr u)}"
    by (simp add: dispatch_line_count)
qed

lemma dispatch_distinct:
  "distinct (map fst (dispatch_loop P dups ls))"
proof (induction ls arbitrary: dups)
  case Nil
  show ?case by simp
next
  case (Cons line lines)
  show ?case
  proof (cases "dups line = None \<and> (\<exists>u. Parse P line = Inr u)")
    case False
    then have "dispatch_loop P dups (line # lines) = dispatch_loop P dups lines"
      by (cases "Parse P line") (auto simp: dispatch_loop_skip)
    then show ?thesis by (simp add: Cons.IH)
  next
    case True
    then obtain u where u: "Parse P line = Inr u" and d: "dups line = None"
      by blast
    have "line \<notin> fst ` set (dispatch_loop P (dups(line \<mapsto> True)) lines)"
      by (simp add: dispatch_set)
    with dispatch_loop_go [where dups = dups and line = line, OF d u] show ?thesis
      by (simp add: Cons.IH)
  qed
qed

lemma dispatch_length:
  "length (dispatch_loop P Map.empty ls) = card {l \<in> set ls. \<exists>u. Parse P l = Inr u}"
proof -
  let ?ds = "map fst (dispatch_loop P Map.empty ls)"
  have "card (set ?ds) = length ?ds"
    using dispatch_distinct by (rule distinct_card)
  moreover have "set ?ds = {l \<in> set ls. \<exists>u. Parse P l = Inr u}"
    using dispatch_set [of P Map.empty ls] by simp
  ultimately show ?thesis by simp
qed

text \<open>
  C3. A line that \<^verbatim>\<open>iter\<close> emits at least once (so also one it emits \<open>k > 1\<close> times) and
  that parses as a URL is dispatched exactly once. After any number of lines
  consumed, what has been dispatched is an initial part of what the whole loop
  dispatches, and the number of fetches dispatched for the line is 1 if it was
  among those lines and 0 if not: the fetch is dispatched at the first
  occurrence, and every later occurrence dispatches nothing.
\<close>

theorem each_line_dispatched_once:
  assumes "l \<in> set (iter source (maxLines options))" and "Parse P l = Inr u"
  shows "count_list (map fst (dispatched P options source)) l = 1 \<and>
         (l, u) \<in> set (dispatched P options source) \<and>
         (\<forall>n. let sofar = dispatch_loop P Map.empty (take n (iter source (maxLines options)))
              in prefix sofar (dispatched P options source) \<and>
                 count_list (map fst sofar) l =
                   (if l \<in> set (take n (iter source (maxLines options))) then 1 else 0))"
  using assms
  by (auto simp: dispatched_def dispatch_line_count dispatch_prefix dispatch_member Let_def)

theorem each_line_dispatched_once_witness:
  "''http://a'' \<in> set (iter (entry ''http://a'' @ [newline] @ entry ''http://b'' @ [newline]
       @ entry ''http://a'' @ [newline]) (maxLines defaults)) \<and>
   Parse exact_platform ''http://a'' = Inr ''http://a'' \<and>
   iter (entry ''http://a'' @ [newline] @ entry ''http://b'' @ [newline]
       @ entry ''http://a'' @ [newline]) (maxLines defaults)
     = [''http://a'', ''http://b'', ''http://a''] \<and>
   count_list (map fst (dispatched exact_platform defaults
     (entry ''http://a'' @ [newline] @ entry ''http://b'' @ [newline]
       @ entry ''http://a'' @ [newline]))) ''http://a'' = 1"
proof -
  let ?src = "entry ''http://a'' @ [newline] @ entry ''http://b'' @ [newline]
       @ entry ''http://a'' @ [newline]"
  have m: "maxLines defaults = - 1"
    by (simp add: defaults_def)
  have i: "iter ?src (- 1) = [''http://a'', ''http://b'', ''http://a'']"
    by code_simp
  have h: "''http://a'' \<in> set (iter ?src (maxLines defaults))"
    unfolding m i by simp
  have p: "Parse exact_platform ''http://a'' = Inr ''http://a''"
    by (simp add: exact_platform_def)
  show ?thesis
    using h p i each_line_dispatched_once [OF h p] unfolding m by blast
qed

section \<open>The fetcher: results on examples\<close>

lemma sample_ok:
  "fetch ''http://a'' (reply 200 ''1234'')
     = \<lparr>url = ''http://a'', completed = True, status = 200, exception = None,
        size_r = 1234, ambiguous = False\<rparr>"
  by (simp add: fetch_def reply_def Header_Get_def word_sless_alt
      Atoi_def ParseInt_def ParseUint_def isDigit_def digitVal_def)

lemma sample_404:
  "fetch ''http://b'' (reply 404 [])
     = \<lparr>url = ''http://b'', completed = True, status = 0,
        exception = Some (Errorf ''invalid status code: 404''),
        size_r = 0, ambiguous = False\<rparr>"
  by (simp add: fetch_def reply_def word_sless_alt fmt_d_def digits.simps)

lemma sample_missing:
  "fetch ''http://c'' (reply 200 [])
     = \<lparr>url = ''http://c'', completed = True, status = 0,
        exception = Some (Errorf ''no-content-length (status code 200): http://c''),
        size_r = 0, ambiguous = True\<rparr>"
  by (simp add: fetch_def reply_def word_sless_alt fmt_d_def digits.simps Header_Get_def)

section \<open>The aggregator: count, sum, minimum and maximum\<close>

lemma add_fields:
  "count_m (add P m r) = count_m m + 1"
  "sum_m (add P m r) = (if exception r = None then sum_m m + size_r r else sum_m m)"
  "max_m (add P m r) = (if exception r = None \<and> max_m m <s size_r r then size_r r else max_m m)"
  "min_m (add P m r) = (if exception r = None \<and> size_r r <s min_m m then size_r r else min_m m)"
  "sizes (add P m r) = (if exception r = None then sizes m @ [float64 P (size_r r)] else sizes m)"
  "failed (add P m r) = (if exception r = None then failed m else failed m + 1)"
  "ambiguous (add P m r)
     = (if ravenResult.ambiguous r then ambiguous m @ [exception r] else ambiguous m)"
  by (simp_all add: add_def Let_def)

lemma fold_add_count:
  "count_m (fold (\<lambda>raven m. add P m raven) rs m) = count_m m + of_nat (length rs)"
  by (induction rs arbitrary: m) (simp_all add: add_fields)

lemma fold_add_sum:
  "sum_m (fold (\<lambda>raven m. add P m raven) rs m) = sum_m m + sum_list (map size_r (successful rs))"
  by (induction rs arbitrary: m) (simp_all add: add_fields successful_def)

lemma fold_add_sizes:
  "sizes (fold (\<lambda>raven m. add P m raven) rs m)
     = sizes m @ map (\<lambda>r. float64 P (size_r r)) (successful rs)"
  by (induction rs arbitrary: m) (simp_all add: add_fields successful_def)

lemma successful_Cons:
  "successful (r # rs) = (if exception r = None then r # successful rs else successful rs)"
  by (simp add: successful_def)

lemma Min_insert_min:
  "finite S \<Longrightarrow> Min (insert (min a b) S) = Min (insert (a :: int) (insert b S))"
  by (cases "S = {}") (simp_all add: min.assoc)

lemma Max_insert_max:
  "finite S \<Longrightarrow> Max (insert (max a b) S) = Max (insert (a :: int) (insert b S))"
  by (cases "S = {}") (simp_all add: max.assoc)

lemma add_min_step:
  "sint (min_m (add P m r))
     = (if exception r = None then min (sint (min_m m)) (sint (size_r r)) else sint (min_m m))"
  by (auto simp: add_fields word_sless_alt)

lemma add_max_step:
  "sint (max_m (add P m r))
     = (if exception r = None then max (sint (max_m m)) (sint (size_r r)) else sint (max_m m))"
  by (auto simp: add_fields word_sless_alt)

lemma fold_add_min:
  "sint (min_m (fold (\<lambda>raven m. add P m raven) rs m))
     = Min (insert (sint (min_m m)) ((\<lambda>r. sint (size_r r)) ` set (successful rs)))"
proof (induction rs arbitrary: m)
  case Nil
  show ?case by (simp add: successful_def)
next
  case (Cons r rs)
  let ?S = "(\<lambda>r. sint (size_r r)) ` set (successful rs)"
  have IH: "sint (min_m (fold (\<lambda>raven m. add P m raven) (r # rs) m))
      = Min (insert (sint (min_m (add P m r))) ?S)"
    by (simp add: Cons.IH)
  show ?case
  proof (cases "exception r = None")
    case False
    then have a: "sint (min_m (add P m r)) = sint (min_m m)"
      by (auto simp: add_min_step)
    from False have b: "successful (r # rs) = successful rs"
      by (auto simp: successful_Cons)
    show ?thesis
      unfolding IH a b by (rule refl)
  next
    case True
    have "Min (insert (min (sint (min_m m)) (sint (size_r r))) ?S)
        = Min (insert (sint (min_m m)) (insert (sint (size_r r)) ?S))"
      by (rule Min_insert_min) simp
    moreover from True
    have "sint (min_m (add P m r)) = min (sint (min_m m)) (sint (size_r r))"
      by (simp add: add_min_step)
    moreover from True have "successful (r # rs) = r # successful rs"
      by (simp add: successful_Cons)
    ultimately show ?thesis
      unfolding IH by simp
  qed
qed

lemma fold_add_max:
  "sint (max_m (fold (\<lambda>raven m. add P m raven) rs m))
     = Max (insert (sint (max_m m)) ((\<lambda>r. sint (size_r r)) ` set (successful rs)))"
proof (induction rs arbitrary: m)
  case Nil
  show ?case by (simp add: successful_def)
next
  case (Cons r rs)
  let ?S = "(\<lambda>r. sint (size_r r)) ` set (successful rs)"
  have IH: "sint (max_m (fold (\<lambda>raven m. add P m raven) (r # rs) m))
      = Max (insert (sint (max_m (add P m r))) ?S)"
    by (simp add: Cons.IH)
  show ?case
  proof (cases "exception r = None")
    case False
    then have a: "sint (max_m (add P m r)) = sint (max_m m)"
      by (auto simp: add_max_step)
    from False have b: "successful (r # rs) = successful rs"
      by (auto simp: successful_Cons)
    show ?thesis
      unfolding IH a b by (rule refl)
  next
    case True
    have "Max (insert (max (sint (max_m m)) (sint (size_r r))) ?S)
        = Max (insert (sint (max_m m)) (insert (sint (size_r r)) ?S))"
      by (rule Max_insert_max) simp
    moreover from True
    have "sint (max_m (add P m r)) = max (sint (max_m m)) (sint (size_r r))"
      by (simp add: add_max_step)
    moreover from True have "successful (r # rs) = r # successful rs"
      by (simp add: successful_Cons)
    ultimately show ?thesis
      unfolding IH by simp
  qed
qed


lemma sint_word_of_int_64:
  "- (2 ^ 63) \<le> x \<Longrightarrow> x < 2 ^ 63 \<Longrightarrow> sint (of_int x :: go_int) = x"
  by (simp add: signed_of_int signed_take_bit_int_eq_self)

lemma sint_word_of_nat_64:
  "n < 2 ^ 63 \<Longrightarrow> sint (of_nat n :: go_int) = int n"
  by (simp add: signed_of_nat signed_take_bit_int_eq_self)



text \<open>
  C9. \<^verbatim>\<open>min\<close> starts at 0 and only goes down, \<^verbatim>\<open>max\<close> starts at 0 and only goes up:
  after any run \<^verbatim>\<open>min\<close> is the least of 0 and the sizes of the results without an
  error, \<^verbatim>\<open>max\<close> the greatest of 0 and these sizes. When all these sizes are
  positive, \<^verbatim>\<open>min\<close> is 0.
\<close>

theorem min_and_max_start_at_zero:
  "sint (min_m (drain P results))
     = Min (insert 0 ((\<lambda>r. sint (size_r r)) ` set (successful results))) \<and>
   sint (max_m (drain P results))
     = Max (insert 0 ((\<lambda>r. sint (size_r r)) ` set (successful results))) \<and>
   ((\<forall>r\<in>set (successful results). 0 <s size_r r) \<longrightarrow> min_m (drain P results) = 0)"
proof -
  let ?S = "(\<lambda>r. sint (size_r r)) ` set (successful results)"
  have mn: "sint (min_m (drain P results)) = Min (insert 0 ?S)"
    by (simp add: drain_def fold_add_min rollup0_def)
  have mx: "sint (max_m (drain P results)) = Max (insert 0 ?S)"
    by (simp add: drain_def fold_add_max rollup0_def)
  have "min_m (drain P results) = 0" if pos: "\<forall>r\<in>set (successful results). 0 <s size_r r"
  proof -
    from pos have "\<forall>x\<in>?S. 0 \<le> x"
      by (auto simp: word_sless_alt)
    then have "Min (insert 0 ?S) = 0"
      by (intro Min_eqI) auto
    with mn have "sint (min_m (drain P results)) = sint (0 :: go_int)"
      by simp
    then show ?thesis
      by (simp only: signed_word_eqI)
  qed
  with mn mx show ?thesis by blast
qed

theorem min_and_max_start_at_zero_witness:
  "list_all (\<lambda>r. 0 <s size_r r)
     (successful [fetch ''http://a'' (reply 200 ''1234''), fetch ''http://b'' (reply 404 [])]) \<and>
   min_m (drain exact_platform
     [fetch ''http://a'' (reply 200 ''1234''), fetch ''http://b'' (reply 404 [])]) = 0 \<and>
   sint (max_m (drain exact_platform
     [fetch ''http://a'' (reply 200 ''1234''), fetch ''http://b'' (reply 404 [])])) = 1234"
proof -
  let ?rs = "[fetch ''http://a'' (reply 200 ''1234''), fetch ''http://b'' (reply 404 [])]"
  have s: "successful ?rs = [fetch ''http://a'' (reply 200 ''1234'')]"
    by (simp add: successful_def sample_ok sample_404)
  have h: "\<forall>r\<in>set (successful ?rs). 0 <s size_r r"
    unfolding s by (simp add: sample_ok word_sless_alt)
  have x: "Max (insert 0 ((\<lambda>r. sint (size_r r)) ` set (successful ?rs))) = 1234"
    unfolding s by (simp add: sample_ok)
  show ?thesis
    using h x min_and_max_start_at_zero [of exact_platform ?rs]
    by (simp add: list_all_iff)
qed

section \<open>The fetcher: the declared length\<close>

lemma foldl_digits_mono:
  "n \<le> foldl (\<lambda>n c. n * 10 + digitVal c) n ds"
proof (induction ds arbitrary: n)
  case Nil
  show ?case by simp
next
  case (Cons c cs)
  have "n \<le> n * 10 + digitVal c" by simp
  also have "\<dots> \<le> foldl (\<lambda>n c. n * 10 + digitVal c) (n * 10 + digitVal c) cs"
    by (rule Cons.IH)
  finally show ?case by simp
qed

lemma ParseUint_loop_Inr:
  "(ParseUint_loop n ds = Inr m) \<longleftrightarrow>
     (list_all isDigit ds \<and> foldl (\<lambda>n c. n * 10 + digitVal c) n ds < 2 ^ 64 \<and>
      m = foldl (\<lambda>n c. n * 10 + digitVal c) n ds)" if "n < 2 ^ 64"
  using that
proof (induction ds arbitrary: n)
  case Nil
  then show ?case by auto
next
  case (Cons c cs)
  show ?case
  proof (cases "isDigit c")
    case False
    then show ?thesis by simp
  next
    case True
    show ?thesis
    proof (cases "2 ^ 64 \<le> n * 10 + digitVal c")
      case big: True
      have "n * 10 + digitVal c \<le> foldl (\<lambda>n c. n * 10 + digitVal c) (n * 10 + digitVal c) cs"
        by (rule foldl_digits_mono)
      with big have "\<not> foldl (\<lambda>n c. n * 10 + digitVal c) (n * 10 + digitVal c) cs < 2 ^ 64"
        by linarith
      with True big show ?thesis by simp
    next
      case small: False
      then have "n * 10 + digitVal c < 2 ^ 64" by simp
      from Cons.IH [OF this] True small show ?thesis by simp
    qed
  qed
qed

lemma ParseUint_Inr:
  "(ParseUint s = Inr m) \<longleftrightarrow> (s \<noteq> [] \<and> list_all isDigit s \<and> decimal s < 2 ^ 64 \<and> m = decimal s)"
  by (simp add: ParseUint_def decimal_def ParseUint_loop_Inr)

lemma signed_range_Inr:
  "((case ParseUint ds of
       Inl e \<Rightarrow> Inl e
     | Inr un \<Rightarrow>
         if \<not> neg \<and> 2 ^ 63 \<le> un then Inl ErrRange
         else if neg \<and> 2 ^ 63 < un then Inl ErrRange
         else Inr (if neg then - of_nat un else of_nat un)) = Inr (x :: go_int)) \<longleftrightarrow>
   (ds \<noteq> [] \<and> list_all isDigit ds \<and>
    - (2 ^ 63) \<le> (if neg then - int (decimal ds) else int (decimal ds)) \<and>
    (if neg then - int (decimal ds) else int (decimal ds)) < 2 ^ 63 \<and>
    x = of_int (if neg then - int (decimal ds) else int (decimal ds)))"
proof (cases "ParseUint ds")
  case (Inl e)
  have "\<not> (ds \<noteq> [] \<and> list_all isDigit ds \<and> decimal ds < 2 ^ 64)"
    using Inl ParseUint_Inr [of ds "decimal ds"] by auto
  then have "ds \<noteq> [] \<and> list_all isDigit ds \<Longrightarrow> 2 ^ 64 \<le> int (decimal ds)"
    by (auto simp: not_less simp flip: of_nat_le_iff)
  then show ?thesis
    using Inl by (cases neg) auto
next
  case (Inr un)
  then have ok: "ds \<noteq> [] \<and> list_all isDigit ds" and un: "un = decimal ds"
    using ParseUint_Inr [of ds un] by auto
  have a: "2 ^ 63 \<le> decimal ds \<longleftrightarrow> (2 ^ 63 :: int) \<le> int (decimal ds)"
    by (simp flip: of_nat_le_iff)
  have b: "2 ^ 63 < decimal ds \<longleftrightarrow> (2 ^ 63 :: int) < int (decimal ds)"
    by (simp flip: of_nat_less_iff)
  show ?thesis
    using Inr ok un a b by (cases neg) auto
qed

lemma ParseInt_Inr:
  "(ParseInt s = Inr x) \<longleftrightarrow>
     (\<exists>v. numeral_of s = Some v \<and> - (2 ^ 63) \<le> v \<and> v < 2 ^ 63 \<and> x = of_int v)"
proof (cases "s = []")
  case True
  then show ?thesis by (simp add: ParseInt_def numeral_of_def)
next
  case False
  let ?neg = "hd s = CHR ''-''"
  let ?ds = "if hd s = CHR ''+'' \<or> hd s = CHR ''-'' then tl s else s"
  let ?v = "if ?neg then - int (decimal ?ds) else int (decimal ?ds)"
  have num: "numeral_of s = (if ?ds \<noteq> [] \<and> list_all isDigit ?ds then Some ?v else None)"
    using False unfolding numeral_of_def Let_def by simp
  have "(ParseInt s = Inr x) \<longleftrightarrow>
      (?ds \<noteq> [] \<and> list_all isDigit ?ds \<and> - (2 ^ 63) \<le> ?v \<and> ?v < 2 ^ 63 \<and> x = of_int ?v)"
    using False unfolding ParseInt_def Let_def
    by (simp only: if_False signed_range_Inr)
  also have "\<dots> \<longleftrightarrow> (\<exists>v. numeral_of s = Some v \<and> - (2 ^ 63) \<le> v \<and> v < 2 ^ 63 \<and> x = of_int v)"
    unfolding num by (cases "?ds \<noteq> [] \<and> list_all isDigit ?ds") (simp_all only: if_True if_False option.inject option.distinct simp_thms ex_simps, auto)
  finally show ?thesis .
qed

lemma Atoi_Inr:
  "(Atoi s = Inr x) \<longleftrightarrow>
     (\<exists>v. numeral_of s = Some v \<and> - (2 ^ 63) \<le> v \<and> v < 2 ^ 63 \<and> x = of_int v)"
  using ParseInt_Inr [of s x] by (cases "ParseInt s") (auto simp: Atoi_def)

lemma Atoi_Inl:
  "Atoi s = Inl e \<Longrightarrow> \<exists>c. e = NumError ''Atoi'' s c"
  by (auto simp: Atoi_def split: sum.splits)

text \<open>
  C2, as the code has it. For a response with a status below 400 and a non-empty
  \<^verbatim>\<open>Content-Length\<close>: the result is a success exactly when the header is a decimal
  numeral with an optional sign whose value fits \<^verbatim>\<open>int\<close>, a negative one included,
  and then the result carries that value as its size and the status; in every
  other case the result carries the error of \<^verbatim>\<open>Atoi\<close>, is ambiguous and has size 0.
\<close>

theorem content_length_decides_result:
  assumes "\<not> 399 <s StatusCode response"
    and "Header_Get (Header response) ''Content-Length'' \<noteq> []"
  shows "(let value = Header_Get (Header response) ''Content-Length'';
              r = fetch resource (Inr response)
          in (exception r = None \<longleftrightarrow>
                (\<exists>v. numeral_of value = Some v \<and> - (2 ^ 63) \<le> v \<and> v < 2 ^ 63)) \<and>
             (\<forall>v. numeral_of value = Some v \<and> - (2 ^ 63) \<le> v \<and> v < 2 ^ 63 \<longrightarrow>
                r = \<lparr>url = resource, completed = True, status = StatusCode response,
                     exception = None, size_r = of_int v, ambiguous = False\<rparr> \<and>
                sint (size_r r) = v) \<and>
             (exception r \<noteq> None \<longrightarrow>
                (\<exists>c. r = \<lparr>url = resource, completed = True, status = 0,
                          exception = Some (NumError ''Atoi'' value c), size_r = 0,
                          ambiguous = True\<rparr>)))"
proof -
  let ?hv = "Header_Get (Header response) ''Content-Length''"
  let ?r = "fetch resource (Inr response)"
  have r: "?r = (case Atoi ?hv of
      Inl e \<Rightarrow> \<lparr>url = resource, completed = True, status = 0, exception = Some e,
                size_r = 0, ambiguous = True\<rparr>
    | Inr len \<Rightarrow> \<lparr>url = resource, completed = True, status = StatusCode response,
                  exception = None, size_r = len, ambiguous = False\<rparr>)"
    using assms by (simp add: fetch_def Let_def)
  show ?thesis
  proof (cases "Atoi ?hv")
    case (Inl e)
    then have no: "\<not> (\<exists>v. numeral_of ?hv = Some v \<and> - (2 ^ 63) \<le> v \<and> v < 2 ^ 63)"
      using Atoi_Inr [of ?hv] by auto
    from Inl obtain c where "e = NumError ''Atoi'' ?hv c"
      using Atoi_Inl by blast
    with Inl r no show ?thesis
      unfolding Let_def by auto
  next
    case (Inr len)
    then obtain v where v: "numeral_of ?hv = Some v" "- (2 ^ 63) \<le> v" "v < 2 ^ 63"
      "len = of_int v"
      using Atoi_Inr [of ?hv len] by auto
    then have "sint len = v"
      by (simp add: sint_word_of_int_64)
    with Inr r v show ?thesis
      unfolding Let_def by auto
  qed
qed

theorem content_length_decides_result_witness:
  "\<not> 399 <s StatusCode \<lparr>StatusCode = 200, Header = [''Content-Length'' \<mapsto> [''1234'']]\<rparr> \<and>
   Header_Get (Header \<lparr>StatusCode = 200, Header = [''Content-Length'' \<mapsto> [''1234'']]\<rparr>)
     ''Content-Length'' = ''1234'' \<and>
   numeral_of ''1234'' = Some 1234 \<and>
   fetch ''http://a'' (Inr \<lparr>StatusCode = 200, Header = [''Content-Length'' \<mapsto> [''1234'']]\<rparr>)
     = \<lparr>url = ''http://a'', completed = True, status = 200, exception = None,
        size_r = 1234, ambiguous = False\<rparr>"
proof -
  let ?resp = "\<lparr>StatusCode = 200, Header = [''Content-Length'' \<mapsto> [''1234'']]\<rparr>"
  have s: "\<not> 399 <s StatusCode ?resp"
    by (simp add: word_sless_alt)
  have g: "Header_Get (Header ?resp) ''Content-Length'' = ''1234''"
    by (simp add: Header_Get_def)
  then have h: "Header_Get (Header ?resp) ''Content-Length'' \<noteq> []"
    by simp
  have n: "numeral_of ''1234'' = Some 1234"
    by (simp add: numeral_of_def decimal_def isDigit_def digitVal_def)
  show ?thesis
    using s g n content_length_decides_result [OF s h, of "''http://a''"]
    unfolding Let_def g by simp
qed

text \<open>
  C2 as stated fails: the header \<^verbatim>\<open>-5\<close> is not a non-negative integer, and the result
  is a success of size \<open>-5\<close>.
\<close>

theorem negative_length_counterexample:
  "numeral_of ''-5'' = Some (- 5) \<and>
   fetch ''http://a'' (reply 204 ''-5'')
     = \<lparr>url = ''http://a'', completed = True, status = 204, exception = None,
        size_r = - 5, ambiguous = False\<rparr>"
  by (simp add: numeral_of_def decimal_def fetch_def reply_def Header_Get_def word_sless_alt
      Atoi_def ParseInt_def ParseUint_def isDigit_def digitVal_def)

section \<open>The pool: clients held and returned\<close>

lemma filter_update_length:
  "i < length xs \<Longrightarrow>
   length (filter P (xs[i := y])) + (if P (xs ! i) then 1 else 0)
     = length (filter P xs) + (if P y then 1 else 0)"
proof (induction xs arbitrary: i)
  case Nil
  then show ?case by simp
next
  case (Cons x xs)
  show ?case
  proof (cases i)
    case 0
    then show ?thesis by simp
  next
    case (Suc j)
    with Cons.prems have "j < length xs" by simp
    from Cons.IH [OF this] Suc show ?thesis by simp
  qed
qed

lemma fire_Acquire:
  assumes "fire s (Acquire i) = Some s'"
  shows "\<exists>u c q. i < length (tasks s) \<and> tasks s ! i = Waiting u \<and> queue s = c # q \<and>
    s' = s\<lparr>queue := q, tasks := (tasks s)[i := Holding u c]\<rparr>"
  using assms by (auto split: if_splits fetcher.splits list.splits)

lemma fire_Respond:
  assumes "fire s (Respond i got) = Some s'"
  shows "\<exists>u c. i < length (tasks s) \<and> tasks s ! i = Holding u c \<and>
    s' = s\<lparr>tasks := (tasks s)[i := Exiting c], received := received s @ [fetch u got]\<rparr>"
  using assms by (auto split: if_splits fetcher.splits)

lemma fire_Release:
  assumes "fire s (Release i) = Some s'"
  shows "\<exists>c. i < length (tasks s) \<and> tasks s ! i = Exiting c \<and>
    length (queue s) < capacity s \<and>
    s' = s\<lparr>queue := queue s @ [c], tasks := (tasks s)[i := Returned]\<rparr>"
  using assms by (auto split: if_splits fetcher.splits)

lemma fire_balanced:
  assumes "fire s a = Some s'" and "balanced s"
  shows "balanced s' \<and> capacity s' = capacity s \<and> length (tasks s') = length (tasks s)"
proof (cases a)
  case (Acquire i)
  with assms(1) have "fire s (Acquire i) = Some s'"
    by (simp only:)
  from fire_Acquire [OF this] obtain u c q where f: "i < length (tasks s)"
      "tasks s ! i = Waiting u" "queue s = c # q"
      "s' = s\<lparr>queue := q, tasks := (tasks s)[i := Holding u c]\<rparr>"
    by blast
  from filter_update_length [OF f(1), of holds "Holding u c"] f(2)
  have "length (filter holds ((tasks s)[i := Holding u c])) = length (filter holds (tasks s)) + 1"
    by simp
  moreover from filter_update_length [OF f(1), of sent "Holding u c"] f(2)
  have "length (filter sent ((tasks s)[i := Holding u c])) = length (filter sent (tasks s))"
    by simp
  ultimately show ?thesis
    using assms(2) f(3,4) by (simp add: balanced_def outstanding_def)
next
  case (Respond i got)
  with assms(1) have "fire s (Respond i got) = Some s'"
    by (simp only:)
  from fire_Respond [OF this] obtain u c where f: "i < length (tasks s)"
      "tasks s ! i = Holding u c"
      "s' = s\<lparr>tasks := (tasks s)[i := Exiting c], received := received s @ [fetch u got]\<rparr>"
    by blast
  from filter_update_length [OF f(1), of holds "Exiting c"] f(2)
  have "length (filter holds ((tasks s)[i := Exiting c])) = length (filter holds (tasks s))"
    by simp
  moreover from filter_update_length [OF f(1), of sent "Exiting c"] f(2)
  have "length (filter sent ((tasks s)[i := Exiting c])) = length (filter sent (tasks s)) + 1"
    by simp
  ultimately show ?thesis
    using assms(2) f(3) by (simp add: balanced_def outstanding_def)
next
  case (Release i)
  with assms(1) have "fire s (Release i) = Some s'"
    by (simp only:)
  from fire_Release [OF this] obtain c where f: "i < length (tasks s)"
      "tasks s ! i = Exiting c"
      "s' = s\<lparr>queue := queue s @ [c], tasks := (tasks s)[i := Returned]\<rparr>"
    by blast
  from filter_update_length [OF f(1), of holds Returned] f(2)
  have "length (filter holds ((tasks s)[i := Returned])) + 1 = length (filter holds (tasks s))"
    by simp
  moreover from filter_update_length [OF f(1), of sent Returned] f(2)
  have "length (filter sent ((tasks s)[i := Returned])) = length (filter sent (tasks s))"
    by simp
  ultimately show ?thesis
    using assms(2) f(3) by (simp add: balanced_def outstanding_def)
qed

lemma exec_balanced:
  "exec s acts = Some s' \<Longrightarrow> balanced s \<Longrightarrow>
   balanced s' \<and> capacity s' = capacity s \<and> length (tasks s') = length (tasks s)"
proof (induction acts arbitrary: s)
  case Nil
  then show ?case by simp
next
  case (Cons a acts)
  from Cons.prems(1) obtain t where t: "fire s a = Some t" "exec t acts = Some s'"
    by (auto split: option.splits)
  from fire_balanced [OF t(1) Cons.prems(2)] Cons.IH [OF t(2)] show ?case
    by simp
qed

lemma launch_balanced:
  "balanced (launch options urls) \<and>
   capacity (launch options urls) = nat (sint (concurrency options)) \<and>
   length (tasks (launch options urls)) = length urls"
proof -
  have "filter holds (map Waiting urls) = []" "filter sent (map Waiting urls) = []"
    by (induction urls) simp_all
  then show ?thesis
    by (simp add: launch_def balanced_def outstanding_def Let_def)
qed

lemma reachable_balanced:
  assumes "exec (launch options urls) acts = Some s"
  shows "balanced s \<and> capacity s = nat (sint (concurrency options)) \<and>
         length (tasks s) = length urls"
  using exec_balanced [OF assms] launch_balanced [of options urls] by simp

lemma finished_counts:
  assumes "finished s"
  shows "filter holds (tasks s) = [] \<and> filter sent (tasks s) = tasks s"
proof -
  from assms have "\<forall>t\<in>set (tasks s). t = Returned"
    by (simp add: finished_def list_all_iff)
  then show ?thesis
    by (induction "tasks s") (auto simp: filter_empty_conv filter_id_conv)
qed

text \<open>
  C8. In every state that the goroutines can reach from the start of \<^verbatim>\<open>main\<close>, in any
  interleaving and with any outcomes of the requests: the clients that are out of
  the channel are at most \<^verbatim>\<open>options.concurrency\<close> (with those in the channel they are
  exactly that many). A goroutine holding a client leaves through one of its
  return paths, whatever \<^verbatim>\<open>client.Get\<close> gives (error, bad status, missing or
  unparseable length, success), sending the one result of that path; its deferred
  send of the client can then always be taken, puts the client back and lowers
  the number of clients held by one. When all goroutines have returned, every
  client is back in the channel.
\<close>

theorem tokens_bounded_and_released:
  assumes "exec (launch options urls) acts = Some s"
  shows "outstanding s \<le> nat (sint (concurrency options)) \<and>
         outstanding s + length (queue s) = nat (sint (concurrency options)) \<and>
         (\<forall>i u c got. i < length (tasks s) \<and> tasks s ! i = Holding u c \<longrightarrow>
            (\<exists>s'. fire s (Respond i got) = Some s' \<and> tasks s' ! i = Exiting c \<and>
                  received s' = received s @ [fetch u got])) \<and>
         (\<forall>i c. i < length (tasks s) \<and> tasks s ! i = Exiting c \<longrightarrow>
            (\<exists>s'. fire s (Release i) = Some s' \<and> tasks s' ! i = Returned \<and>
                  queue s' = queue s @ [c] \<and> outstanding s' + 1 = outstanding s)) \<and>
         (finished s \<longrightarrow> outstanding s = 0 \<and> length (queue s) = nat (sint (concurrency options)))"
proof -
  from reachable_balanced [OF assms]
  have b: "balanced s" and c: "capacity s = nat (sint (concurrency options))"
    by simp_all
  then have sum: "outstanding s + length (queue s) = nat (sint (concurrency options))"
    by (simp add: balanced_def)
  have resp: "\<exists>s'. fire s (Respond i got) = Some s' \<and> tasks s' ! i = Exiting c \<and>
      received s' = received s @ [fetch u got]"
    if "i < length (tasks s)" "tasks s ! i = Holding u c" for i u c got
    using that by simp
  have rel: "\<exists>s'. fire s (Release i) = Some s' \<and> tasks s' ! i = Returned \<and>
      queue s' = queue s @ [c] \<and> outstanding s' + 1 = outstanding s"
    if i: "i < length (tasks s)" and t: "tasks s ! i = Exiting c" for i c
  proof -
    from i t have "Exiting c \<in> set (filter holds (tasks s))"
      by (auto simp: in_set_conv_nth)
    then have "0 < outstanding s"
      unfolding outstanding_def by (metis length_pos_if_in_set)
    with sum c have room: "length (queue s) < capacity s"
      by simp
    from filter_update_length [OF i, of holds Returned] t
    have "length (filter holds ((tasks s)[i := Returned])) + 1 = length (filter holds (tasks s))"
      by simp
    with i t room show ?thesis
      by (simp add: outstanding_def)
  qed
  have fin: "outstanding s = 0 \<and> length (queue s) = nat (sint (concurrency options))"
    if "finished s"
    using finished_counts [OF that] sum by (simp add: outstanding_def)
  from sum resp rel fin show ?thesis
    by (intro conjI allI impI) auto
qed

theorem tokens_bounded_and_released_witness:
  "exec (launch (defaults\<lparr>concurrency := 1\<rparr>) [''http://a'', ''http://b'']) [Acquire 0]
     = Some \<lparr>capacity = 1, queue = [], tasks = [Holding ''http://a'' 0, Waiting ''http://b''],
         received = []\<rparr> \<and>
   fire \<lparr>capacity = 1, queue = [], tasks = [Holding ''http://a'' 0, Waiting ''http://b''],
         received = []\<rparr> (Acquire 1) = None \<and>
   outstanding \<lparr>capacity = 1, queue = [], tasks = [Holding ''http://a'' 0, Waiting ''http://b''],
         received = []\<rparr> = 1 \<and>
   outstanding \<lparr>capacity = 1, queue = [], tasks = [Holding ''http://a'' 0, Waiting ''http://b''],
         received = []\<rparr> \<le> nat (sint (concurrency (defaults\<lparr>concurrency := 1\<rparr>)))"
proof -
  let ?s = "\<lparr>capacity = 1, queue = [], tasks = [Holding ''http://a'' 0, Waiting ''http://b''],
         received = []\<rparr>"
  have e: "exec (launch (defaults\<lparr>concurrency := 1\<rparr>) [''http://a'', ''http://b'']) [Acquire 0]
      = Some ?s"
    by (simp add: launch_def defaults_def)
  have a: "fire ?s (Acquire 1) = None"
    by simp
  have o: "outstanding ?s = 1"
    by (simp add: outstanding_def)
  show ?thesis
    using e a o tokens_bounded_and_released [OF e] by blast
qed

lemma sum_list_update_nat:
  "i < length xs \<Longrightarrow>
   sum_list (map f (xs[i := y])) + f (xs ! i) = sum_list (map f xs) + (f y :: nat)"
proof (induction xs arbitrary: i)
  case Nil
  then show ?case by simp
next
  case (Cons x xs)
  show ?case
  proof (cases i)
    case 0
    then show ?thesis by simp
  next
    case (Suc j)
    with Cons.prems have "j < length xs" by simp
    from Cons.IH [OF this] Suc show ?thesis by simp
  qed
qed

lemma fire_work:
  assumes "fire s a = Some s'"
  shows "work s' + 1 = work s"
proof (cases a)
  case (Acquire i)
  with assms have "fire s (Acquire i) = Some s'"
    by (simp only:)
  from fire_Acquire [OF this] obtain u c q where f: "i < length (tasks s)"
      "tasks s ! i = Waiting u"
      "s' = s\<lparr>queue := q, tasks := (tasks s)[i := Holding u c]\<rparr>"
    by blast
  from sum_list_update_nat [OF f(1), of steps_left "Holding u c"] f(2,3) show ?thesis
    by (simp add: work_def)
next
  case (Respond i got)
  with assms have "fire s (Respond i got) = Some s'"
    by (simp only:)
  from fire_Respond [OF this] obtain u c where f: "i < length (tasks s)"
      "tasks s ! i = Holding u c"
      "s' = s\<lparr>tasks := (tasks s)[i := Exiting c], received := received s @ [fetch u got]\<rparr>"
    by blast
  from sum_list_update_nat [OF f(1), of steps_left "Exiting c"] f(2,3) show ?thesis
    by (simp add: work_def)
next
  case (Release i)
  with assms have "fire s (Release i) = Some s'"
    by (simp only:)
  from fire_Release [OF this] obtain c where f: "i < length (tasks s)"
      "tasks s ! i = Exiting c"
      "s' = s\<lparr>queue := queue s @ [c], tasks := (tasks s)[i := Returned]\<rparr>"
    by blast
  from sum_list_update_nat [OF f(1), of steps_left Returned] f(2,3) show ?thesis
    by (simp add: work_def)
qed

lemma exec_work:
  "exec s acts = Some s' \<Longrightarrow> work s' + length acts = work s"
proof (induction acts arbitrary: s)
  case Nil
  then show ?case by simp
next
  case (Cons a acts)
  from Cons.prems obtain t where t: "fire s a = Some t" "exec t acts = Some s'"
    by (auto split: option.splits)
  from fire_work [OF t(1)] Cons.IH [OF t(2)] show ?case
    by simp
qed

lemma launch_work: "work (launch options urls) = 3 * length urls"
  by (induction urls) (simp_all add: work_def launch_def Let_def)

lemma progress:
  assumes b: "balanced s" and cap: "0 < capacity s" and nf: "\<not> finished s"
  shows "\<exists>a s'. fire s a = Some s'"
proof -
  have holder: "\<exists>a s'. fire s a = Some s'" if i: "i < length (tasks s)"
    and h: "holds (tasks s ! i)" for i
  proof (cases "tasks s ! i")
    case (Holding u c)
    with i have "fire s (Respond i (Inl EOF)) \<noteq> None"
      by simp
    then show ?thesis by blast
  next
    case (Exiting c)
    from i h have "tasks s ! i \<in> set (filter holds (tasks s))"
      by (auto simp: in_set_conv_nth)
    then have "0 < outstanding s"
      unfolding outstanding_def by (metis length_pos_if_in_set)
    with b have "length (queue s) < capacity s"
      by (simp add: balanced_def)
    with i Exiting have "fire s (Release i) \<noteq> None"
      by simp
    then show ?thesis by blast
  next
    case (Waiting u)
    with h show ?thesis by simp
  next
    case Returned
    with h show ?thesis by simp
  qed
  from nf obtain i where i: "i < length (tasks s)" and t: "tasks s ! i \<noteq> Returned"
    by (auto simp: finished_def list_all_length)
  show ?thesis
  proof (cases "tasks s ! i")
    case (Waiting u)
    show ?thesis
    proof (cases "queue s")
      case (Cons c q)
      with i Waiting have "fire s (Acquire i) \<noteq> None"
        by simp
      then show ?thesis by blast
    next
      case Nil
      with b cap have "0 < length (filter holds (tasks s))"
        by (simp add: balanced_def outstanding_def)
      then obtain t where "t \<in> set (filter holds (tasks s))"
        by (metis length_greater_0_conv last_in_set)
      then obtain j where "j < length (tasks s)" "holds (tasks s ! j)"
        by (auto simp: in_set_conv_nth)
      then show ?thesis by (rule holder)
    qed
  next
    case (Holding u c)
    with i show ?thesis by (intro holder [of i]) simp_all
  next
    case (Exiting c)
    with i show ?thesis by (intro holder [of i]) simp_all
  next
    case Returned
    with t show ?thesis by simp
  qed
qed

lemma completes:
  "balanced s \<Longrightarrow> 0 < capacity s \<Longrightarrow> \<exists>acts s'. exec s acts = Some s' \<and> finished s'"
proof (induction "work s" arbitrary: s rule: less_induct)
  case less
  show ?case
  proof (cases "finished s")
    case True
    then have "exec s [] = Some s \<and> finished s" by simp
    then show ?thesis by blast
  next
    case False
    from progress [OF less.prems False] obtain a t where a: "fire s a = Some t"
      by blast
    from fire_balanced [OF a less.prems(1)] less.prems(2)
    have "balanced t" "0 < capacity t" by simp_all
    moreover from fire_work [OF a] have "work t < work s" by simp
    ultimately obtain acts s' where "exec t acts = Some s'" "finished s'"
      using less.hyps by blast
    with a have "exec s (a # acts) = Some s' \<and> finished s'"
      by simp
    then show ?thesis by blast
  qed
qed

lemma two_and_junk_dispatched:
  "dispatched exact_platform (defaults\<lparr>concurrency := 2\<rparr>) two_and_junk
     = [(''http://a'', ''http://a''), (''http://b'', ''http://b'')]"
proof -
  have "iter two_and_junk (- 1) = [''http://a'', ''http://b'', ''http://a'']"
    by code_simp
  then show ?thesis
    by (simp add: dispatched_def defaults_def exact_platform_def)
qed

text \<open>
  C4. When all goroutines have returned, in any interleaving: \<^verbatim>\<open>count\<close> is the number
  of results the aggregator has folded (in \<^verbatim>\<open>int\<close>, so exactly that number below
  \<open>2 ^ 63\<close>), which is the number of fetches dispatched, one result for each, which
  is the number of distinct lines emitted by \<^verbatim>\<open>iter\<close> that parse as a URL.
\<close>

theorem count_is_number_dispatched:
  assumes "exec (launch options (map snd (dispatched P options source))) acts = Some s"
    and "finished s"
  shows "count_m (drain P (received s)) = of_nat (length (received s)) \<and>
         length (received s) = length (dispatched P options source) \<and>
         length (dispatched P options source)
           = card {l \<in> set (iter source (maxLines options)). \<exists>u. Parse P l = Inr u} \<and>
         (length (received s) < 2 ^ 63 \<longrightarrow>
            sint (count_m (drain P (received s))) = int (length (received s)))"
proof -
  from reachable_balanced [OF assms(1)]
  have b: "balanced s" and n: "length (tasks s) = length (dispatched P options source)"
    by simp_all
  from b finished_counts [OF assms(2)] n
  have r: "length (received s) = length (dispatched P options source)"
    by (simp add: balanced_def)
  have c: "count_m (drain P (received s)) = of_nat (length (received s))"
    by (simp add: drain_def fold_add_count rollup0_def)
  have d: "length (dispatched P options source)
      = card {l \<in> set (iter source (maxLines options)). \<exists>u. Parse P l = Inr u}"
    by (simp add: dispatched_def dispatch_length)
  from r c d show ?thesis
    by (simp add: sint_word_of_nat_64)
qed

theorem count_is_number_dispatched_witness:
  "exec (launch (defaults\<lparr>concurrency := 2\<rparr>)
       (map snd (dispatched exact_platform (defaults\<lparr>concurrency := 2\<rparr>) two_and_junk)))
     [Acquire 0, Acquire 1, Respond 1 (reply 404 []), Respond 0 (reply 200 ''1234''),
      Release 0, Release 1]
     = Some \<lparr>capacity = 2, queue = [0, 1], tasks = [Returned, Returned],
         received = [fetch ''http://b'' (reply 404 []), fetch ''http://a'' (reply 200 ''1234'')]\<rparr> \<and>
   finished \<lparr>capacity = 2, queue = [0, 1], tasks = [Returned, Returned],
         received = [fetch ''http://b'' (reply 404 []), fetch ''http://a'' (reply 200 ''1234'')]\<rparr> \<and>
   count_m (drain exact_platform
     [fetch ''http://b'' (reply 404 []), fetch ''http://a'' (reply 200 ''1234'')]) = 2 \<and>
   length (dispatched exact_platform (defaults\<lparr>concurrency := 2\<rparr>) two_and_junk) = 2"
proof -
  let ?s = "\<lparr>capacity = 2, queue = [0, 1], tasks = [Returned, Returned],
         received = [fetch ''http://b'' (reply 404 []), fetch ''http://a'' (reply 200 ''1234'')]\<rparr>"
  have e: "exec (launch (defaults\<lparr>concurrency := 2\<rparr>)
       (map snd (dispatched exact_platform (defaults\<lparr>concurrency := 2\<rparr>) two_and_junk)))
     [Acquire 0, Acquire 1, Respond 1 (reply 404 []), Respond 0 (reply 200 ''1234''),
      Release 0, Release 1] = Some ?s"
    unfolding two_and_junk_dispatched by (simp add: launch_def defaults_def upt_rec)
  have f: "finished ?s"
    by (simp add: finished_def)
  have l: "length (dispatched exact_platform (defaults\<lparr>concurrency := 2\<rparr>) two_and_junk) = 2"
    unfolding two_and_junk_dispatched by simp
  show ?thesis
    using e f l count_is_number_dispatched [OF e f] by simp
qed

section \<open>The reporter: the last line of a run\<close>

lemma fold_add_failed:
  "failed (fold (\<lambda>raven m. add P m raven) rs m)
     = failed m + of_nat (length (filter (\<lambda>r. exception r \<noteq> None) rs))"
  by (induction rs arbitrary: m) (simp_all add: add_fields)

lemma fold_add_ambiguous:
  "ambiguous (fold (\<lambda>raven m. add P m raven) rs m)
     = ambiguous m @ map exception (filter ravenResult.ambiguous rs)"
  by (induction rs arbitrary: m) (simp_all add: add_fields)

lemma drain_fields:
  "count_m (drain P rs) = of_nat (length rs)"
  "sum_m (drain P rs) = sum_list (map size_r (successful rs))"
  "sizes (drain P rs) = map (\<lambda>r. float64 P (size_r r)) (successful rs)"
  "failed (drain P rs) = of_nat (length (filter (\<lambda>r. exception r \<noteq> None) rs))"
  "ambiguous (drain P rs) = map exception (filter ravenResult.ambiguous rs)"
  by (simp_all add: drain_def rollup0_def fold_add_count fold_add_sum fold_add_sizes
      fold_add_failed fold_add_ambiguous)

lemma report_nothing_successful:
  assumes "successful rs = []"
  shows "report P rs
     = ''done: '' @ ''invalid flock metrics, error: '' @ fmt_e P (Some EmptyInput) @ [newline]"
  using assms by (simp add: report_def String_def Quartile_def finish_def drain_fields)

lemma report_statistics_fail:
  assumes "successful rs \<noteq> []"
    and "quartiles P (map (\<lambda>r. float64 P (size_r r)) (successful rs)) = Inl e \<or>
         (\<exists>q. quartiles P (map (\<lambda>r. float64 P (size_r r)) (successful rs)) = Inr q) \<and>
         percentile P (map (\<lambda>r. float64 P (size_r r)) (successful rs)) 99 = Inl e \<or>
         (\<exists>q. quartiles P (map (\<lambda>r. float64 P (size_r r)) (successful rs)) = Inr q) \<and>
         (\<exists>p. percentile P (map (\<lambda>r. float64 P (size_r r)) (successful rs)) 99 = Inr p) \<and>
         percentile P (map (\<lambda>r. float64 P (size_r r)) (successful rs)) 95 = Inl e"
  shows "report P rs = ''done: '' @ ''invalid flock metrics, error: '' @ fmt_e P (Some e) @ [newline]"
  using assms
  by (auto simp: report_def String_def Quartile_def Percentile_def finish_def drain_fields)

lemma report_summary:
  assumes "successful rs \<noteq> []"
    and "quartiles P (map (\<lambda>r. float64 P (size_r r)) (successful rs)) = Inr quarters"
    and "percentile P (map (\<lambda>r. float64 P (size_r r)) (successful rs)) 99 = Inr p99"
    and "percentile P (map (\<lambda>r. float64 P (size_r r)) (successful rs)) 95 = Inr p95"
  shows "report P rs = ''done: '' @
     Join ([''count['' @ fmt_d (of_nat (length rs)) @ '']'',
            ''max['' @ fmt_d (max_m (drain P rs)) @ '']'',
            ''min['' @ fmt_d (min_m (drain P rs)) @ '']'',
            ''avg['' @ fmt_f P (fdiv P (float64 P (sum_list (map size_r (successful rs))))
                                  (float64 P (of_nat (length rs)))) @ '']'',
            ''quartiles['' @ fmt_q P quarters @ '']'',
            ''95['' @ fmt_f P p95 @ '']'',
            ''99['' @ fmt_f P p99 @ '']'',
            ''failed['' @ fmt_d (of_nat (length (filter (\<lambda>r. exception r \<noteq> None) rs))) @ '']'',
            ''ambiguous['' @ fmt_d (of_nat (length (filter ravenResult.ambiguous rs))) @ '']''] @
           (if filter ravenResult.ambiguous rs = [] then []
            else [[newline] @ ''AMBIGUOUS RAVENS:'' @ [newline] @
                  Join (map (\<lambda>r. fmt_e P (exception r) @ [newline])
                         (filter ravenResult.ambiguous rs)) [] @ [newline]])) '' '' @
     [newline]"
  using assms
  by (simp add: report_def String_def Quartile_def Percentile_def finish_def drain_fields
      Let_def comp_def)

lemma work_zero_iff: "work s = 0 \<longleftrightarrow> finished s"
proof -
  have "steps_left t = 0 \<longleftrightarrow> t = Returned" for t
    by (cases t) simp_all
  then show ?thesis
    by (simp add: work_def finished_def list_all_iff)
qed

text \<open>
  C7, as the code has it. Once \<^verbatim>\<open>options.concurrency\<close> is positive, from every state
  the goroutines can reach, with any outcomes of the requests so far: the run
  takes at most three steps for each fetch, has finished exactly when it has
  taken them all, and can always go on until all goroutines have returned. The
  line printed from the results received is then, when no result is a success,
  \<^verbatim>\<open>done: invalid flock metrics, error:\<close> followed by the empty-input error of the
  statistics library; when the quartiles or a percentile fail, the same with the
  first of their errors; and only when all three computations succeed the
  summary with count, max, min, average, quartiles, the 95th and 99th
  percentile, failed and the ambiguous count, followed by the listing of the
  ambiguous errors when there are any.
\<close>

theorem run_completes_with_one_report:
  assumes "0 <s concurrency options" and "exec (launch options urls) acts = Some s"
  shows "length acts \<le> 3 * length urls \<and>
         (finished s \<longleftrightarrow> length acts = 3 * length urls) \<and>
         (\<exists>more s'. exec s more = Some s' \<and> finished s') \<and>
         (successful (received s) = [] \<longrightarrow>
            report P (received s)
              = ''done: '' @ ''invalid flock metrics, error: '' @ fmt_e P (Some EmptyInput) @
                [newline]) \<and>
         (\<forall>e. successful (received s) \<noteq> [] \<and>
            (quartiles P (map (\<lambda>r. float64 P (size_r r)) (successful (received s))) = Inl e \<or>
             (\<exists>q. quartiles P (map (\<lambda>r. float64 P (size_r r)) (successful (received s)))
                    = Inr q) \<and>
             percentile P (map (\<lambda>r. float64 P (size_r r)) (successful (received s))) 99 = Inl e \<or>
             (\<exists>q. quartiles P (map (\<lambda>r. float64 P (size_r r)) (successful (received s)))
                    = Inr q) \<and>
             (\<exists>p. percentile P (map (\<lambda>r. float64 P (size_r r)) (successful (received s))) 99
                    = Inr p) \<and>
             percentile P (map (\<lambda>r. float64 P (size_r r)) (successful (received s))) 95 = Inl e) \<longrightarrow>
            report P (received s)
              = ''done: '' @ ''invalid flock metrics, error: '' @ fmt_e P (Some e) @ [newline]) \<and>
         (\<forall>quarters p99 p95. successful (received s) \<noteq> [] \<and>
            quartiles P (map (\<lambda>r. float64 P (size_r r)) (successful (received s)))
              = Inr quarters \<and>
            percentile P (map (\<lambda>r. float64 P (size_r r)) (successful (received s))) 99 = Inr p99 \<and>
            percentile P (map (\<lambda>r. float64 P (size_r r)) (successful (received s))) 95 = Inr p95 \<longrightarrow>
            report P (received s) = ''done: '' @
              Join ([''count['' @ fmt_d (of_nat (length (received s))) @ '']'',
                     ''max['' @ fmt_d (max_m (drain P (received s))) @ '']'',
                     ''min['' @ fmt_d (min_m (drain P (received s))) @ '']'',
                     ''avg['' @
                        fmt_f P (fdiv P
                          (float64 P (sum_list (map size_r (successful (received s)))))
                          (float64 P (of_nat (length (received s))))) @ '']'',
                     ''quartiles['' @ fmt_q P quarters @ '']'',
                     ''95['' @ fmt_f P p95 @ '']'',
                     ''99['' @ fmt_f P p99 @ '']'',
                     ''failed['' @
                        fmt_d (of_nat (length (filter (\<lambda>r. exception r \<noteq> None) (received s)))) @
                        '']'',
                     ''ambiguous['' @
                        fmt_d (of_nat (length (filter ravenResult.ambiguous (received s)))) @
                        '']''] @
                    (if filter ravenResult.ambiguous (received s) = [] then []
                     else [[newline] @ ''AMBIGUOUS RAVENS:'' @ [newline] @
                           Join (map (\<lambda>r. fmt_e P (exception r) @ [newline])
                                  (filter ravenResult.ambiguous (received s))) [] @
                           [newline]])) '' '' @
              [newline])"
proof -
  from reachable_balanced [OF assms(2)]
  have b: "balanced s" and c: "capacity s = nat (sint (concurrency options))"
    by simp_all
  from assms(1) have "0 < capacity s"
    unfolding c by (simp add: word_sless_alt)
  with b have fin: "\<exists>more s'. exec s more = Some s' \<and> finished s'"
    by (rule completes)
  from exec_work [OF assms(2)] have w: "work s + length acts = 3 * length urls"
    by (simp add: launch_work)
  then have len: "length acts \<le> 3 * length urls"
    by simp
  from w have iff: "finished s \<longleftrightarrow> length acts = 3 * length urls"
    unfolding work_zero_iff [symmetric] by auto
  show ?thesis
    using len iff fin report_nothing_successful [of "received s" P]
      report_statistics_fail [of "received s" P] report_summary [of "received s" P]
    by (intro conjI allI impI) blast+
qed

lemma sample_766:
  "fetch ''http://c'' (reply 200 ''766'')
     = \<lparr>url = ''http://c'', completed = True, status = 200, exception = None,
        size_r = 766, ambiguous = False\<rparr>"
  by (simp add: fetch_def reply_def Header_Get_def word_sless_alt
      Atoi_def ParseInt_def ParseUint_def isDigit_def digitVal_def)

theorem run_completes_with_one_report_witness:
  "0 <s concurrency (defaults\<lparr>concurrency := 1\<rparr>) \<and>
   exec (launch (defaults\<lparr>concurrency := 1\<rparr>) [''http://a'', ''http://c''])
     [Acquire 0, Respond 0 (reply 200 ''1234''), Release 0,
      Acquire 1, Respond 1 (reply 200 ''766''), Release 1]
     = Some \<lparr>capacity = 1, queue = [0], tasks = [Returned, Returned],
         received = [fetch ''http://a'' (reply 200 ''1234''),
                     fetch ''http://c'' (reply 200 ''766'')]\<rparr> \<and>
   finished \<lparr>capacity = 1, queue = [0], tasks = [Returned, Returned],
         received = [fetch ''http://a'' (reply 200 ''1234''),
                     fetch ''http://c'' (reply 200 ''766'')]\<rparr> \<and>
   quartiles exact_platform [1234, 766] = Inr (766, 1000, 1234) \<and>
   report exact_platform
       [fetch ''http://a'' (reply 200 ''1234''), fetch ''http://c'' (reply 200 ''766'')]
     = ''done: count[2] max[1234] min[0] avg[1000/1] quartiles[{766/1 1000/1 1234/1}] '' @
       ''95[1000/1] 99[1000/1] failed[0] ambiguous[0]'' @ [newline]"
proof -
  let ?rs = "[fetch ''http://a'' (reply 200 ''1234''), fetch ''http://c'' (reply 200 ''766'')]"
  let ?s = "\<lparr>capacity = 1, queue = [0], tasks = [Returned, Returned], received = ?rs\<rparr>"
  have h: "0 <s concurrency (defaults\<lparr>concurrency := 1\<rparr>)"
    by (simp add: defaults_def word_sless_alt)
  have e: "exec (launch (defaults\<lparr>concurrency := 1\<rparr>) [''http://a'', ''http://c''])
     [Acquire 0, Respond 0 (reply 200 ''1234''), Release 0,
      Acquire 1, Respond 1 (reply 200 ''766''), Release 1] = Some ?s"
    by (simp add: launch_def defaults_def)
  have f: "finished ?s"
    by (simp add: finished_def)
  have s: "successful ?rs = ?rs"
    by (simp add: successful_def sample_ok sample_766)
  have sz: "map (\<lambda>r. float64 exact_platform (size_r r)) ?rs = [1234, 766]"
    by (simp add: sample_ok sample_766 exact_platform_def)
  have q: "quartiles exact_platform [1234, 766] = Inr (766, 1000, 1234)"
    by (simp add: exact_platform_def quartiles_rat_def median_rat_def)
  have p99: "percentile exact_platform [1234, 766] 99 = Inr 1000"
    and p95: "percentile exact_platform [1234, 766] 95 = Inr 1000"
    by (simp_all add: exact_platform_def percentile_rat_def)
  have d: "max_m (drain exact_platform ?rs) = 1234" "min_m (drain exact_platform ?rs) = 0"
    by (simp_all add: drain_def rollup0_def add_fields sample_ok sample_766 word_sless_alt)
  have r: "received ?s = ?rs"
    by simp
  from run_completes_with_one_report [OF h e, of exact_platform]
  have "report exact_platform ?rs = ''done: '' @
      Join ([''count['' @ fmt_d (of_nat (length ?rs)) @ '']'',
             ''max['' @ fmt_d (max_m (drain exact_platform ?rs)) @ '']'',
             ''min['' @ fmt_d (min_m (drain exact_platform ?rs)) @ '']'',
             ''avg['' @
                fmt_f exact_platform (fdiv exact_platform
                  (float64 exact_platform (sum_list (map size_r (successful ?rs))))
                  (float64 exact_platform (of_nat (length ?rs)))) @ '']'',
             ''quartiles['' @ fmt_q exact_platform (766, 1000, 1234) @ '']'',
             ''95['' @ fmt_f exact_platform 1000 @ '']'',
             ''99['' @ fmt_f exact_platform 1000 @ '']'',
             ''failed['' @
                fmt_d (of_nat (length (filter (\<lambda>r. exception r \<noteq> None) ?rs))) @ '']'',
             ''ambiguous['' @
                fmt_d (of_nat (length (filter ravenResult.ambiguous ?rs))) @ '']''] @
            (if filter ravenResult.ambiguous ?rs = [] then []
             else [[newline] @ ''AMBIGUOUS RAVENS:'' @ [newline] @
                   Join (map (\<lambda>r. fmt_e exact_platform (exception r) @ [newline])
                          (filter ravenResult.ambiguous ?rs)) [] @
                   [newline]])) '' '' @
      [newline]"
    unfolding r s sz using q p99 p95 by simp
  also have "\<dots> = ''done: count[2] max[1234] min[0] avg[1000/1] quartiles[{766/1 1000/1 1234/1}] '' @
       ''95[1000/1] 99[1000/1] failed[0] ambiguous[0]'' @ [newline]"
    unfolding d s
    by (simp add: sample_ok sample_766 exact_platform_def fmt_d_def fmt_rat_def digits.simps
        word_sless_alt)
  finally show ?thesis
    using h e f q by blast
qed

text \<open>
  C7 as stated fails: in the run whose only fetch gets the status 404, the line
  printed has none of the fields of the summary.
\<close>

theorem all_fetches_failed_counterexample:
  "exec (launch (defaults\<lparr>concurrency := 1\<rparr>) [''http://b''])
     [Acquire 0, Respond 0 (reply 404 []), Release 0]
     = Some \<lparr>capacity = 1, queue = [0], tasks = [Returned],
         received = [fetch ''http://b'' (reply 404 [])]\<rparr> \<and>
   report exact_platform [fetch ''http://b'' (reply 404 [])]
     = ''done: invalid flock metrics, error: Input must not be empty.'' @ [newline]"
proof -
  have "successful [fetch ''http://b'' (reply 404 [])] = []"
    by (simp add: successful_def sample_404)
  then have "report exact_platform [fetch ''http://b'' (reply 404 [])]
      = ''done: invalid flock metrics, error: Input must not be empty.'' @ [newline]"
    by (simp add: report_nothing_successful exact_platform_def)
  moreover have "exec (launch (defaults\<lparr>concurrency := 1\<rparr>) [''http://b''])
     [Acquire 0, Respond 0 (reply 404 []), Release 0]
     = Some \<lparr>capacity = 1, queue = [0], tasks = [Returned],
         received = [fetch ''http://b'' (reply 404 [])]\<rparr>"
    by (simp add: launch_def defaults_def)
  ultimately show ?thesis by blast
qed

end
